theory Spec2Isabelle
  imports Main "HOL-Library.Word"
begin

section \<open>Data model of PacketStream\<close>

type_synonym uint8_t = "8 word"
type_synonym uint16_t = "16 word"

text \<open>The private enum \<^verbatim>\<open>DecodingStatus\<close> of PacketStream.h.\<close>

datatype DecodingStatus =
    DecodingDone
  | DecodingContinue
  | DecodingCobsError
  | DecodingFileError

text \<open>
  \<^verbatim>\<open>mbed::FileHandle\<close> is an abstract class declared outside the repository; the stream
  only calls its two virtual methods. They are taken as parameters over an arbitrary
  transport state \<open>'io\<close>:
  \<^item> \<open>fh_read\<close> is \<^verbatim>\<open>read(buffer, 1)\<close>: the returned count, the byte left in the one-byte
    buffer, and the transport afterwards;
  \<^item> \<open>fh_write\<close> is \<^verbatim>\<open>write(buffer, size)\<close>, the buffer given as the list of its first
    \<open>size\<close> bytes: the returned count (an \<^verbatim>\<open>ssize_t\<close>) and the transport afterwards.
\<close>

record 'io FileHandle =
  fh_read :: "'io \<Rightarrow> int \<times> uint8_t \<times> 'io"
  fh_write :: "'io \<Rightarrow> uint8_t list \<Rightarrow> int \<times> 'io"

text \<open>The private members of class PacketStream; \<open>io\<close> is the object behind \<^verbatim>\<open>_io\<close>.\<close>

record 'io PacketStream =
  tx_pos :: uint16_t
  tx_buf :: "uint8_t list"
  rx_next_zero :: uint8_t
  rx_next_pad :: bool
  io :: 'io

text \<open>
  The constructor. \<open>mem\<close> is what the 257 bytes of \<^verbatim>\<open>_tx_buf\<close> hold before the
  constructor runs (the array is not initialised beyond slot 0).
\<close>

definition PacketStream_new :: "uint8_t list \<Rightarrow> 'io \<Rightarrow> 'io PacketStream" where
  "PacketStream_new mem io0 =
     \<lparr>tx_pos = 1, tx_buf = mem[0 := 0], rx_next_zero = 1, rx_next_pad = True, io = io0\<rparr>"

section \<open>Decoder\<close>

text \<open>\<^verbatim>\<open>PacketStream::_getc\<close>: one byte from the transport.\<close>

definition getc :: "'io FileHandle \<Rightarrow> 'io PacketStream \<Rightarrow> DecodingStatus \<times> uint8_t \<times> 'io PacketStream" where
  "getc fh s =
     (case fh_read fh (io s) of
        (n, b, io') \<Rightarrow>
          if n = 1 then (DecodingContinue, b, s\<lparr>io := io'\<rparr>)
          else (DecodingFileError, b, s\<lparr>io := io'\<rparr>))"

text \<open>
  \<^verbatim>\<open>PacketStream::_cobs_getc\<close>. The second component of the result is the byte stored
  through \<^verbatim>\<open>val\<close>; the source stores one only when it returns \<open>DecodingContinue\<close>, and
  its callers read \<^verbatim>\<open>val\<close> only then, so the component is 0 on every other status.
  The decrement of \<^verbatim>\<open>_rx_next_zero\<close> is that of an 8-bit unsigned value.
\<close>

function cobs_getc :: "'io FileHandle \<Rightarrow> 'io PacketStream \<Rightarrow> DecodingStatus \<times> uint8_t \<times> 'io PacketStream" where
  "cobs_getc fh s =
     (case getc fh s of
        (status, data, s1) \<Rightarrow>
          if status \<noteq> DecodingContinue then (status, 0, s1)
          else
            let s2 = s1\<lparr>rx_next_zero := rx_next_zero s1 - 1\<rparr> in
            if data = 0 then
              (let valid = (rx_next_zero s2 = 0);
                   s3 = s2\<lparr>rx_next_zero := 1, rx_next_pad := True\<rparr>
               in (if valid then DecodingDone else DecodingCobsError, 0, s3))
            else if rx_next_zero s2 = 0 then
              (let prev_rx_next_pad = rx_next_pad s2;
                   s3 = s2\<lparr>rx_next_zero := data, rx_next_pad := (data = 255)\<rparr>
               in if prev_rx_next_pad then cobs_getc fh s3
                  else (DecodingContinue, 0, s3))
            else (DecodingContinue, data, s2))"
  by pat_completeness auto

termination
  by (relation "measure (\<lambda>(fh, s). if rx_next_pad s \<and> rx_next_zero s = 1 then 1 else 0)")
     (auto simp: getc_def split: prod.splits if_splits)

declare cobs_getc.simps [simp del]

text \<open>
  The number of invocations of \<^verbatim>\<open>_cobs_getc\<close> that one outer call makes, itself
  included: the same recursion as \<open>cobs_getc\<close>, counting instead of decoding. Every
  invocation calls \<^verbatim>\<open>_getc\<close> exactly once, so this is also the number of transport
  reads of the call.
\<close>

function cobs_getc_calls :: "'io FileHandle \<Rightarrow> 'io PacketStream \<Rightarrow> nat" where
  "cobs_getc_calls fh s =
     (case getc fh s of
        (status, data, s1) \<Rightarrow>
          if status \<noteq> DecodingContinue then 1
          else
            let s2 = s1\<lparr>rx_next_zero := rx_next_zero s1 - 1\<rparr> in
            if data = 0 then 1
            else if rx_next_zero s2 = 0 then
              (let prev_rx_next_pad = rx_next_pad s2;
                   s3 = s2\<lparr>rx_next_zero := data, rx_next_pad := (data = 255)\<rparr>
               in if prev_rx_next_pad then 1 + cobs_getc_calls fh s3
                  else 1)
            else 1)"
  by pat_completeness auto
termination
  by (relation "measure (\<lambda>(fh, s). if rx_next_pad s \<and> rx_next_zero s = 1 then 1 else 0)")
     (auto simp: getc_def split: prod.splits if_splits)

declare cobs_getc_calls.simps [simp del]

text \<open>
  \<^verbatim>\<open>PacketStream::read\<close>. The \<^verbatim>\<open>while (true)\<close> loop ends only on a status other than
  \<open>DecodingContinue\<close>, and a transport may deliver non-zero bytes for ever, so the loop
  is a partial function: \<open>None\<close> is a call that does not return. \<open>data\<close> is the
  caller's buffer, \<open>sz\<close> the \<^verbatim>\<open>size\<close> argument, \<open>pos\<close> the loop counter. The counter is a
  \<^verbatim>\<open>size_t\<close>, which has 32 bits on the target (\<^verbatim>\<open>main\<close> hands \<^verbatim>\<open>read\<close> the address of a
  \<^verbatim>\<open>uint32_t\<close> for \<^verbatim>\<open>actual\<close>): \<^verbatim>\<open>pos++\<close> wraps around at \<open>2 ^ 32\<close>, and the values of
  \<open>sz\<close>, \<open>pos\<close> and \<^verbatim>\<open>*actual\<close> are numbers below \<open>2 ^ 32\<close>. The loop hands back the status
  it stopped on.
\<close>

partial_function (option) read_loop ::
  "'io FileHandle \<Rightarrow> 'io PacketStream \<Rightarrow> uint8_t list \<Rightarrow> nat \<Rightarrow> nat
     \<Rightarrow> (DecodingStatus \<times> uint8_t list \<times> nat \<times> 'io PacketStream) option" where
  "read_loop fh s data sz pos =
     (case cobs_getc fh s of
        (status, val, s') \<Rightarrow>
          if status = DecodingContinue
          then read_loop fh s' (if pos < sz then data[pos := val] else data) sz
                 ((pos + 1) mod 2 ^ 32)
          else Some (status, data, pos, s'))"

declare read_loop.simps [code]

text \<open>
  The result of \<open>read\<close> is the returned flag, the caller's buffer, the value of
  \<^verbatim>\<open>*actual\<close> (written on success only) and the stream.
\<close>

definition read ::
  "'io FileHandle \<Rightarrow> 'io PacketStream \<Rightarrow> uint8_t list \<Rightarrow> nat \<Rightarrow> nat
     \<Rightarrow> (bool \<times> uint8_t list \<times> nat \<times> 'io PacketStream) option" where
  "read fh s data sz actual =
     (case read_loop fh s data sz 0 of
        None \<Rightarrow> None
      | Some (status, data', pos, s') \<Rightarrow>
          if status = DecodingDone then Some (True, data', pos, s')
          else Some (False, data', actual, s'))"

text \<open>
  \<^verbatim>\<open>PacketStream::scanf\<close>. \<open>buf\<close> is what the local array \<^verbatim>\<open>uint8_t buf[64 + 1]\<close> holds
  on entry. The store \<^verbatim>\<open>buf[actual] = 0\<close> is checked against the 65 bytes of the array:
  an index outside them is undefined behaviour in the source and the error
  \<open>StoreOutOfBounds\<close> here. \<^verbatim>\<open>vsscanf\<close> belongs to the C library and is a parameter (its
  result only; the parsed arguments are not modelled); its result passes through the
  \<^verbatim>\<open>bool\<close> variable \<^verbatim>\<open>ret\<close>.
\<close>

datatype scanf_error = StoreOutOfBounds nat

definition scanf ::
  "'io FileHandle \<Rightarrow> (uint8_t list \<Rightarrow> string \<Rightarrow> int) \<Rightarrow> 'io PacketStream \<Rightarrow> uint8_t list \<Rightarrow> string
     \<Rightarrow> (scanf_error + int \<times> 'io PacketStream) option" where
  "scanf fh vsscanf s buf format =
     (case read fh s buf ((64 + 1) - 1) 0 of
        None \<Rightarrow> None
      | Some (ok, buf', actual, s') \<Rightarrow>
          if \<not> ok then Some (Inr (0, s'))
          else if actual < 64 + 1 then
            (let buf'' = buf'[actual := 0];
                 ret = (vsscanf buf'' format \<noteq> 0)
             in Some (Inr (if ret then 1 else 0, s')))
          else Some (Inl (StoreOutOfBounds actual)))"

section \<open>Encoder\<close>

text \<open>
  The statement \<^verbatim>\<open>if (_io->write(_tx_buf, _tx_pos) != _tx_pos) success = false;\<close>, which
  \<^verbatim>\<open>_cobs_write\<close> has three times. The comparison is between the \<^verbatim>\<open>ssize_t\<close> result
  and the promoted 16-bit position.
\<close>

definition io_write_tx :: "'io FileHandle \<Rightarrow> bool \<Rightarrow> 'io PacketStream \<Rightarrow> bool \<times> 'io PacketStream" where
  "io_write_tx fh success s =
     (case fh_write fh (io s) (take (unat (tx_pos s)) (tx_buf s)) of
        (n, io') \<Rightarrow> (if n \<noteq> uint (tx_pos s) then False else success, s\<lparr>io := io'\<rparr>))"

text \<open>The body of the \<^verbatim>\<open>for\<close> loop of \<^verbatim>\<open>_cobs_write\<close> for the byte \<open>d\<close> = \<^verbatim>\<open>data[i]\<close>.\<close>

definition cobs_write_step :: "'io FileHandle \<Rightarrow> bool \<Rightarrow> 'io PacketStream \<Rightarrow> uint8_t \<Rightarrow> bool \<times> 'io PacketStream" where
  "cobs_write_step fh success s d =
     (case (if tx_pos s \<ge> 255 then
              (case io_write_tx fh success (s\<lparr>tx_buf := (tx_buf s)[0 := ucast (tx_pos s)]\<rparr>) of
                 (ok, sa) \<Rightarrow>
                   let sb = sa\<lparr>tx_pos := 0\<rparr>;
                       sc = sb\<lparr>tx_buf := (tx_buf sb)[unat (tx_pos sb) := 0]\<rparr>
                   in (ok, sc\<lparr>tx_pos := tx_pos sc + 1\<rparr>))
            else (success, s)) of
        (success1, s1) \<Rightarrow>
          (case (if d = 0 then
                   (case io_write_tx fh success1 (s1\<lparr>tx_buf := (tx_buf s1)[0 := ucast (tx_pos s1)]\<rparr>) of
                      (ok, sa) \<Rightarrow> (ok, sa\<lparr>tx_pos := 0\<rparr>))
                 else (success1, s1)) of
             (success2, s2) \<Rightarrow>
               let s3 = s2\<lparr>tx_buf := (tx_buf s2)[unat (tx_pos s2) := d]\<rparr>
               in (success2, s3\<lparr>tx_pos := tx_pos s3 + 1\<rparr>)))"

text \<open>The \<^verbatim>\<open>for\<close> loop over \<^verbatim>\<open>data[0 .. size - 1]\<close>; \<open>data\<close> is the list of these bytes.\<close>

fun cobs_write_loop :: "'io FileHandle \<Rightarrow> bool \<Rightarrow> 'io PacketStream \<Rightarrow> uint8_t list \<Rightarrow> bool \<times> 'io PacketStream" where
  "cobs_write_loop fh success s [] = (success, s)"
| "cobs_write_loop fh success s (d # ds) =
     (case cobs_write_step fh success s d of
        (success', s') \<Rightarrow> cobs_write_loop fh success' s' ds)"

text \<open>The block \<^verbatim>\<open>if (last) { ... }\<close> of \<^verbatim>\<open>_cobs_write\<close>.\<close>

definition cobs_write_last :: "'io FileHandle \<Rightarrow> bool \<Rightarrow> 'io PacketStream \<Rightarrow> bool \<times> 'io PacketStream" where
  "cobs_write_last fh success s1 =
     (let s2 = s1\<lparr>tx_buf := (tx_buf s1)[0 := ucast (tx_pos s1)]\<rparr>;
          s3 = s2\<lparr>tx_buf := (tx_buf s2)[unat (tx_pos s2) := 0]\<rparr>;
          s4 = s3\<lparr>tx_pos := tx_pos s3 + 1\<rparr>
      in case io_write_tx fh success s4 of
           (ok, s5) \<Rightarrow>
             let s6 = s5\<lparr>tx_buf := (tx_buf s5)[0 := 0]\<rparr>
             in (ok, s6\<lparr>tx_pos := 1\<rparr>))"

text \<open>
  \<^verbatim>\<open>PacketStream::_cobs_write\<close>: the returned flag and the stream afterwards
  (\<open>is_last\<close> is the parameter \<^verbatim>\<open>last\<close>).
\<close>

definition cobs_write :: "'io FileHandle \<Rightarrow> 'io PacketStream \<Rightarrow> uint8_t list \<Rightarrow> bool \<Rightarrow> bool \<times> 'io PacketStream" where
  "cobs_write fh s data is_last =
     (case cobs_write_loop fh True s data of
        (success, s1) \<Rightarrow>
          if is_last then cobs_write_last fh success s1
          else (success, s1))"

text \<open>\<^verbatim>\<open>PacketStream::write\<close> (\<open>write\<close> is a keyword of Isabelle, hence the suffix).\<close>

definition write_packet :: "'io FileHandle \<Rightarrow> 'io PacketStream \<Rightarrow> uint8_t list \<Rightarrow> bool \<times> 'io PacketStream" where
  "write_packet fh s data = cobs_write fh s data True"

section \<open>The file handles of the self test\<close>

text \<open>
  \<^verbatim>\<open>class PacketStreamTestFileHandle\<close>: reads come from a buffer set beforehand, writes
  are compared with an expected buffer. \<open>write_valid_flag\<close> is the member
  \<^verbatim>\<open>_write_valid\<close> (the method \<^verbatim>\<open>write_valid()\<close> is \<open>write_valid\<close> below).
\<close>

record PacketStreamTestFileHandle =
  read_buf :: "uint8_t list"
  read_size :: nat
  read_pos :: nat
  write_buf :: "uint8_t list"
  write_size :: nat
  write_pos :: nat
  write_valid_flag :: bool

definition PacketStreamTestFileHandle_new :: PacketStreamTestFileHandle where
  "PacketStreamTestFileHandle_new =
     \<lparr>read_buf = [], read_size = 0, read_pos = 0,
      write_buf = [], write_size = 0, write_pos = 0, write_valid_flag = False\<rparr>"

definition write_set_expected :: "PacketStreamTestFileHandle \<Rightarrow> uint8_t list \<Rightarrow> nat \<Rightarrow> PacketStreamTestFileHandle" where
  "write_set_expected t buffer sz =
     t\<lparr>write_valid_flag := True, write_buf := buffer, write_size := sz, write_pos := 0\<rparr>"

definition write_valid :: "PacketStreamTestFileHandle \<Rightarrow> bool" where
  "write_valid t = (write_valid_flag t \<and> write_pos t = write_size t)"

definition read_set_next :: "PacketStreamTestFileHandle \<Rightarrow> uint8_t list \<Rightarrow> nat \<Rightarrow> PacketStreamTestFileHandle" where
  "read_set_next t buffer sz = t\<lparr>read_buf := buffer, read_pos := 0, read_size := sz\<rparr>"

definition read_done :: "PacketStreamTestFileHandle \<Rightarrow> bool" where
  "read_done t = (read_pos t = read_size t)"

text \<open>
  \<^verbatim>\<open>PacketStreamTestFileHandle::read\<close> with \<^verbatim>\<open>size\<close> = 1. When nothing is available the
  one-byte buffer is left as it was; the model reports 0 for it.
\<close>

definition test_read :: "PacketStreamTestFileHandle \<Rightarrow> int \<times> uint8_t \<times> PacketStreamTestFileHandle" where
  "test_read t =
     (let available = read_size t - read_pos t;
          n = (if 1 > available then available else 1)
      in (int n, if n = 1 then read_buf t ! read_pos t else 0, t\<lparr>read_pos := read_pos t + n\<rparr>))"

text \<open>\<^verbatim>\<open>PacketStreamTestFileHandle::write\<close>; \<^verbatim>\<open>memcmp\<close> compares \<open>sz\<close> bytes.\<close>

definition test_write :: "PacketStreamTestFileHandle \<Rightarrow> uint8_t list \<Rightarrow> int \<times> PacketStreamTestFileHandle" where
  "test_write t buffer =
     (let sz = length buffer in
      if write_pos t + sz > write_size t then (int sz, t\<lparr>write_valid_flag := False\<rparr>)
      else if buffer \<noteq> take sz (drop (write_pos t) (write_buf t))
        then (int sz, t\<lparr>write_valid_flag := False\<rparr>)
      else (int sz, t\<lparr>write_pos := write_pos t + sz\<rparr>))"

definition TestFileHandle :: "PacketStreamTestFileHandle FileHandle" where
  "TestFileHandle = \<lparr>fh_read = test_read, fh_write = test_write\<rparr>"

text \<open>
  \<^verbatim>\<open>class PacketStreamLoopFileHandle\<close>: a ring of 2048 bytes that hands back what was
  written. \<open>mem\<close> is what the array \<^verbatim>\<open>_buf\<close> holds before the constructor runs.
\<close>

record PacketStreamLoopFileHandle =
  loop_buf :: "uint8_t list"
  loop_head :: nat
  loop_tail :: nat
  loop_size :: nat

definition PacketStreamLoopFileHandle_new :: "uint8_t list \<Rightarrow> PacketStreamLoopFileHandle" where
  "PacketStreamLoopFileHandle_new mem =
     \<lparr>loop_buf = mem, loop_head = 0, loop_tail = 0, loop_size = 2048\<rparr>"

definition loop_used :: "PacketStreamLoopFileHandle \<Rightarrow> nat" where
  "loop_used l =
     (if loop_head l > loop_tail l then loop_tail l + loop_size l - loop_head l
      else loop_tail l - loop_head l)"

definition loop_free :: "PacketStreamLoopFileHandle \<Rightarrow> nat" where
  "loop_free l = loop_size l - loop_used l - 1"

text \<open>\<^verbatim>\<open>PacketStreamLoopFileHandle::read\<close> with \<^verbatim>\<open>size\<close> = 1.\<close>

definition loop_read :: "PacketStreamLoopFileHandle \<Rightarrow> int \<times> uint8_t \<times> PacketStreamLoopFileHandle" where
  "loop_read l =
     (let available = loop_used l;
          n = (if 1 < available then 1 else available)
      in if n = 1 then
           (let b = loop_buf l ! loop_head l;
                l1 = l\<lparr>loop_head := loop_head l + 1\<rparr>
            in (int n, b, if loop_head l1 \<ge> loop_size l1 then l1\<lparr>loop_head := 0\<rparr> else l1))
         else (int n, 0, l))"

text \<open>The body of the copy loop of \<^verbatim>\<open>PacketStreamLoopFileHandle::write\<close>.\<close>

definition loop_put :: "PacketStreamLoopFileHandle \<Rightarrow> uint8_t \<Rightarrow> PacketStreamLoopFileHandle" where
  "loop_put l b =
     (let l1 = l\<lparr>loop_buf := (loop_buf l)[loop_tail l := b]\<rparr>;
          l2 = l1\<lparr>loop_tail := loop_tail l1 + 1\<rparr>
      in if loop_tail l2 \<ge> loop_size l2 then l2\<lparr>loop_tail := 0\<rparr> else l2)"

definition loop_write :: "PacketStreamLoopFileHandle \<Rightarrow> uint8_t list \<Rightarrow> int \<times> PacketStreamLoopFileHandle" where
  "loop_write l buffer =
     (if loop_free l < length buffer then (- 1, l)
      else (int (length buffer), foldl loop_put l buffer))"

definition LoopFileHandle :: "PacketStreamLoopFileHandle FileHandle" where
  "LoopFileHandle = \<lparr>fh_read = loop_read, fh_write = loop_write\<rparr>"

text \<open>
  An instance of the transport for a serial line, as \<^verbatim>\<open>main.cpp\<close> sets one up
  (\<^verbatim>\<open>UARTSerial serial(USBTX, USBRX, 9600); PacketStream pc(&serial);\<close>). The class
  \<^verbatim>\<open>UARTSerial\<close> belongs to the mbed library; what the stream sees of it is the
  \<^verbatim>\<open>FileHandle\<close> interface. The state is the list of bytes the peer has sent and the
  stream has not read yet: a read of one byte takes the next one and returns the count 1,
  or returns 0 when there is none; a write is accepted whole and leaves the incoming
  bytes alone. A line is not bounded by the memory of the target, so it can carry a
  packet of any length.
\<close>

definition line_read :: "uint8_t list \<Rightarrow> int \<times> uint8_t \<times> uint8_t list" where
  "line_read i = (case i of [] \<Rightarrow> (0, 0, []) | b # bs \<Rightarrow> (1, b, bs))"

definition line_write :: "uint8_t list \<Rightarrow> uint8_t list \<Rightarrow> int \<times> uint8_t list" where
  "line_write i buffer = (int (length buffer), i)"

definition LineFileHandle :: "uint8_t list FileHandle" where
  "LineFileHandle = \<lparr>fh_read = line_read, fh_write = line_write\<rparr>"

text \<open>
  A fresh stream over a test handle primed with the bytes \<open>bs\<close>, as the self test sets
  one up (\<^verbatim>\<open>PacketStream serial(&mock); mock.read_set_next(encoded, encoded_size);\<close>).
\<close>

definition test_stream :: "uint8_t list \<Rightarrow> PacketStreamTestFileHandle PacketStream" where
  "test_stream bs =
     PacketStream_new (replicate 257 0)
       (read_set_next PacketStreamTestFileHandle_new bs (length bs))"

section \<open>Specification-level definitions\<close>

text \<open>
  \<open>delivers fh i bs i'\<close>: the next \<open>length bs\<close> one-byte reads of the transport \<open>i\<close>
  succeed, return the bytes \<open>bs\<close> in order and leave the transport \<open>i'\<close>.
\<close>

fun delivers :: "'io FileHandle \<Rightarrow> 'io \<Rightarrow> uint8_t list \<Rightarrow> 'io \<Rightarrow> bool" where
  "delivers fh i [] i' = (i' = i)"
| "delivers fh i (b # bs) i' =
     (case fh_read fh i of (n, x, i1) \<Rightarrow> n = 1 \<and> x = b \<and> delivers fh i1 bs i')"

text \<open>
  The loop of \<^verbatim>\<open>read\<close> for a sequence of decoded bytes, the first of them at position
  \<open>pos\<close>: \<^verbatim>\<open>if (pos < size) data[pos] = val; pos++;\<close> for each, the counter wrapping
  around as in \<open>read_loop\<close>. \<open>store_from\<close> is the buffer afterwards and \<open>pos_after\<close> the
  counter after \<open>n\<close> bytes.
\<close>

fun store_from :: "uint8_t list \<Rightarrow> nat \<Rightarrow> nat \<Rightarrow> uint8_t list \<Rightarrow> uint8_t list" where
  "store_from data sz pos [] = data"
| "store_from data sz pos (v # vs) =
     store_from (if pos < sz then data[pos := v] else data) sz ((pos + 1) mod 2 ^ 32) vs"

fun pos_after :: "nat \<Rightarrow> nat \<Rightarrow> nat" where
  "pos_after pos 0 = pos"
| "pos_after pos (Suc n) = pos_after ((pos + 1) mod 2 ^ 32) n"

text \<open>
  The encoder of section 4.1 of the specification, as the list of buffers it hands to
  the transport for one frame. \<open>c\<close> is the data of the open block, the second
  argument the payload still to encode: a full open block (254 data bytes) is flushed
  as an overhead block when more payload remains; a zero byte flushes the open block
  and is not stored; any other byte is appended; at the end the open block goes out
  with the delimiter. Each flushed block starts with its length byte.
\<close>

fun spec_frame_writes :: "uint8_t list \<Rightarrow> uint8_t list \<Rightarrow> uint8_t list list" where
  "spec_frame_writes c [] = [of_nat (Suc (length c)) # c @ [0]]"
| "spec_frame_writes c (d # ds) =
     (if length c \<ge> 254 then
        (if d = 0 then [of_nat (Suc (length c)) # c, [1]] @ spec_frame_writes [] ds
         else [of_nat (Suc (length c)) # c] @ spec_frame_writes [d] ds)
      else if d = 0 then [of_nat (Suc (length c)) # c] @ spec_frame_writes [] ds
      else spec_frame_writes (c @ [d]) ds)"

text \<open>The writes of one loop iteration in that specification, and the open block after it.\<close>

definition spec_step_writes :: "uint8_t list \<Rightarrow> uint8_t \<Rightarrow> uint8_t list list" where
  "spec_step_writes c d =
     (if 254 \<le> length c then
        (if d = 0 then [of_nat (Suc (length c)) # c, [1]] else [of_nat (Suc (length c)) # c])
      else if d = 0 then [of_nat (Suc (length c)) # c] else [])"

definition spec_step_block :: "uint8_t list \<Rightarrow> uint8_t \<Rightarrow> uint8_t list" where
  "spec_step_block c d = (if d = 0 then [] else if 254 \<le> length c then [d] else c @ [d])"

text \<open>
  The transport writes of the buffers \<open>bs\<close> in order, with the check the encoder makes
  of each returned count; \<open>success\<close> is the flag so far.
\<close>

fun write_all :: "'io FileHandle \<Rightarrow> bool \<Rightarrow> 'io \<Rightarrow> uint8_t list list \<Rightarrow> bool \<times> 'io" where
  "write_all fh success i [] = (success, i)"
| "write_all fh success i (b # bs) =
     (case fh_write fh i b of
        (n, i1) \<Rightarrow> write_all fh (if n \<noteq> int (length b) then False else success) i1 bs)"

text \<open>
  The encoder state between two iterations: \<^verbatim>\<open>_tx_buf\<close> has its 257 bytes, the open
  block holds the data bytes \<open>c\<close> in slots 1 to \<open>length c\<close>, and \<^verbatim>\<open>_tx_pos\<close> is one past
  them. With \<open>c = []\<close> this is the state the constructor and every completed
  \<^verbatim>\<open>write\<close> leave.
\<close>

definition tx_block :: "'io PacketStream \<Rightarrow> uint8_t list \<Rightarrow> bool" where
  "tx_block s c =
     (length (tx_buf s) = 257 \<and> unat (tx_pos s) = Suc (length c) \<and> length c \<le> 254
        \<and> take (length c) (tl (tx_buf s)) = c)"

text \<open>
  A transport that records what the stream asks of the transport \<open>fh\<close> it wraps: every
  write is passed on unchanged, and its buffer and the count \<open>fh\<close> returned are appended
  to a log kept beside the state of \<open>fh\<close>.
\<close>

definition logged :: "'io FileHandle \<Rightarrow> ('io \<times> (uint8_t list \<times> int) list) FileHandle" where
  "logged fh =
     \<lparr>fh_read = (\<lambda>(i, log). case fh_read fh i of (n, b, i') \<Rightarrow> (n, b, (i', log))),
      fh_write = (\<lambda>(i, log) buffer.
                    case fh_write fh i buffer of (n, i') \<Rightarrow> (n, (i', log @ [(buffer, n)])))\<rparr>"

text \<open>The stream \<open>s\<close> over another transport object.\<close>

definition with_io :: "'a PacketStream \<Rightarrow> 'b \<Rightarrow> 'b PacketStream" where
  "with_io s i =
     \<lparr>tx_pos = tx_pos s, tx_buf = tx_buf s, rx_next_zero = rx_next_zero s,
      rx_next_pad = rx_next_pad s, io = i\<rparr>"

text \<open>A log entry whose returned count is the requested one.\<close>

definition count_ok :: "uint8_t list \<times> int \<Rightarrow> bool" where
  "count_ok e = (snd e = int (length (fst e)))"

text \<open>
  The loop file handle as a queue. \<open>loop_ok\<close>: the ring is as the constructor and the
  two methods keep it (the size is that of the array, head and tail are inside it).
  \<open>loop_index l k\<close> is the slot of the \<open>k\<close>-th byte after the head, and
  \<open>loop_contents\<close> the bytes written and not yet read, oldest first.
\<close>

definition loop_ok :: "PacketStreamLoopFileHandle \<Rightarrow> bool" where
  "loop_ok l =
     (loop_size l = length (loop_buf l) \<and> loop_head l < loop_size l \<and> loop_tail l < loop_size l)"

definition loop_index :: "PacketStreamLoopFileHandle \<Rightarrow> nat \<Rightarrow> nat" where
  "loop_index l k =
     (if loop_head l + k < loop_size l then loop_head l + k else loop_head l + k - loop_size l)"

definition loop_contents :: "PacketStreamLoopFileHandle \<Rightarrow> uint8_t list" where
  "loop_contents l = map (\<lambda>k. loop_buf l ! loop_index l k) [0..<loop_used l]"

section \<open>The decoder step\<close>

text \<open>
  The step without its recursion: what one invocation does, by the status of the
  transport read, the byte read and the decoder fields.
\<close>

lemma getc_cases:
  "getc fh s = (if fst (fh_read fh (io s)) = 1 then DecodingContinue else DecodingFileError,
                fst (snd (fh_read fh (io s))), s\<lparr>io := snd (snd (fh_read fh (io s)))\<rparr>)"
  by (simp add: getc_def split: prod.splits)

lemma cobs_getc_file_error:
  assumes "fst (fh_read fh (io s)) \<noteq> 1"
  shows "cobs_getc fh s = (DecodingFileError, 0, s\<lparr>io := snd (snd (fh_read fh (io s)))\<rparr>)"
  using assms by (subst cobs_getc.simps) (simp add: getc_cases)

lemma cobs_getc_zero:
  assumes "fh_read fh (io s) = (1, 0, i1)"
  shows "cobs_getc fh s =
           (if rx_next_zero s = 1 then DecodingDone else DecodingCobsError, 0,
            s\<lparr>rx_next_zero := 1, rx_next_pad := True, io := i1\<rparr>)"
  using assms by (subst cobs_getc.simps) (simp add: getc_cases Let_def)

lemma cobs_getc_data:
  assumes "fh_read fh (io s) = (1, b, i1)" "b \<noteq> 0" "rx_next_zero s \<noteq> 1"
  shows "cobs_getc fh s = (DecodingContinue, b, s\<lparr>rx_next_zero := rx_next_zero s - 1, io := i1\<rparr>)"
  using assms by (subst cobs_getc.simps) (simp add: getc_cases Let_def)

lemma cobs_getc_control:
  assumes "fh_read fh (io s) = (1, b, i1)" "b \<noteq> 0" "rx_next_zero s = 1" "\<not> rx_next_pad s"
  shows "cobs_getc fh s = (DecodingContinue, 0, s\<lparr>rx_next_zero := b, rx_next_pad := (b = 255), io := i1\<rparr>)"
  using assms by (subst cobs_getc.simps) (simp add: getc_cases Let_def)

lemma cobs_getc_control_pad:
  assumes "fh_read fh (io s) = (1, b, i1)" "b \<noteq> 0" "rx_next_zero s = 1" "rx_next_pad s"
  shows "cobs_getc fh s = cobs_getc fh (s\<lparr>rx_next_zero := b, rx_next_pad := (b = 255), io := i1\<rparr>)"
proof -
  have eq: "s\<lparr>io := i1, rx_next_zero := b, rx_next_pad := (b = 255)\<rparr>
        = s\<lparr>rx_next_zero := b, rx_next_pad := (b = 255), io := i1\<rparr>"
    by simp
  show ?thesis unfolding eq[symmetric] using assms
    by (subst cobs_getc.simps) (simp add: getc_cases Let_def)
qed

lemma cobs_getc_calls_leaf:
  assumes "\<not> (rx_next_zero s = 1 \<and> rx_next_pad s)"
  shows "cobs_getc_calls fh s = 1"
  using assms by (subst cobs_getc_calls.simps) (auto simp add: getc_cases Let_def)

lemma cobs_getc_calls_le: "cobs_getc_calls fh s \<le> 2"
  by (subst cobs_getc_calls.simps) (auto simp add: getc_cases Let_def cobs_getc_calls_leaf)


lemma cobs_getc_leaf_reset:
  assumes "\<not> (rx_next_zero s = 1 \<and> rx_next_pad s)"
    and "cobs_getc fh s = (st, v, s')" "st = DecodingDone \<or> st = DecodingCobsError"
  shows "rx_next_zero s' = 1 \<and> rx_next_pad s'"
  using assms
  by (subst (asm) cobs_getc.simps) (auto simp add: getc_cases Let_def split: if_splits)

lemma cobs_getc_terminal_reset:
  assumes "cobs_getc fh s = (st, v, s')" "st = DecodingDone \<or> st = DecodingCobsError"
  shows "rx_next_zero s' = 1 \<and> rx_next_pad s'"
proof (cases "fst (fh_read fh (io s)) = 1 \<and> fst (snd (fh_read fh (io s))) \<noteq> 0 \<and> rx_next_zero s = 1 \<and> rx_next_pad s")
  case True
  let ?b = "fst (snd (fh_read fh (io s)))"
  let ?s3 = "s\<lparr>rx_next_zero := ?b, rx_next_pad := (?b = 255), io := snd (snd (fh_read fh (io s)))\<rparr>"
  have rd: "fh_read fh (io s) = (1, ?b, snd (snd (fh_read fh (io s))))"
    using True by (metis prod.collapse)
  have "cobs_getc fh s = cobs_getc fh ?s3"
    using True by (intro cobs_getc_control_pad[OF rd]) simp_all
  moreover have "\<not> (rx_next_zero ?s3 = 1 \<and> rx_next_pad ?s3)"
    by auto
  ultimately show ?thesis
    using assms cobs_getc_leaf_reset[of ?s3 fh st v s'] by simp
next
  case False
  with assms show ?thesis
    by (subst (asm) cobs_getc.simps) (auto simp add: getc_cases Let_def split: if_splits)
qed

lemma cobs_getc_file_error_state:
  assumes "cobs_getc fh s = (DecodingFileError, v, s')"
  shows "(fst (fh_read fh (io s)) \<noteq> 1 \<and>
            rx_next_zero s' = rx_next_zero s \<and> rx_next_pad s' = rx_next_pad s) \<or>
         (fst (fh_read fh (io s)) = 1 \<and> fst (snd (fh_read fh (io s))) \<noteq> 0 \<and>
            rx_next_zero s = 1 \<and> rx_next_pad s \<and>
            fst (fh_read fh (snd (snd (fh_read fh (io s))))) \<noteq> 1 \<and>
            rx_next_zero s' = fst (snd (fh_read fh (io s))) \<and>
            rx_next_pad s' = (fst (snd (fh_read fh (io s))) = 255))"
proof (cases "fst (fh_read fh (io s)) = 1 \<and> fst (snd (fh_read fh (io s))) \<noteq> 0 \<and> rx_next_zero s = 1 \<and> rx_next_pad s")
  case True
  let ?b = "fst (snd (fh_read fh (io s)))"
  let ?s3 = "s\<lparr>rx_next_zero := ?b, rx_next_pad := (?b = 255), io := snd (snd (fh_read fh (io s)))\<rparr>"
  have rd: "fh_read fh (io s) = (1, ?b, snd (snd (fh_read fh (io s))))"
    using True by (metis prod.collapse)
  have "cobs_getc fh s = cobs_getc fh ?s3"
    using True by (intro cobs_getc_control_pad[OF rd]) simp_all
  then have "cobs_getc fh ?s3 = (DecodingFileError, v, s')"
    using assms by simp
  then have "fst (fh_read fh (snd (snd (fh_read fh (io s))))) \<noteq> 1 \<and>
      rx_next_zero s' = ?b \<and> rx_next_pad s' = (?b = 255)"
    by (subst (asm) cobs_getc.simps) (auto simp add: getc_cases Let_def split: if_splits)
  with True show ?thesis by simp
next
  case False
  with assms show ?thesis
    by (subst (asm) cobs_getc.simps) (auto simp add: getc_cases Let_def split: if_splits)
qed

lemma cobs_getc_recursive_call:
  assumes "fst (fh_read fh (io s)) = 1" "fst (snd (fh_read fh (io s))) \<noteq> 0"
    "rx_next_zero s = 1" "rx_next_pad s"
  shows "cobs_getc fh s =
           cobs_getc fh (s\<lparr>rx_next_zero := fst (snd (fh_read fh (io s))),
                            rx_next_pad := (fst (snd (fh_read fh (io s))) = 255),
                            io := snd (snd (fh_read fh (io s)))\<rparr>)"
proof -
  have "fh_read fh (io s) = (1, fst (snd (fh_read fh (io s))), snd (snd (fh_read fh (io s))))"
    using assms(1) by (metis prod.collapse)
  then show ?thesis
    using assms by (intro cobs_getc_control_pad) simp_all
qed

lemma cobs_getc_leaf:
  assumes "\<not> (rx_next_zero s = 1 \<and> rx_next_pad s)"
  shows "cobs_getc fh s =
     (if fst (fh_read fh (io s)) \<noteq> 1
        then (DecodingFileError, 0, s\<lparr>io := snd (snd (fh_read fh (io s)))\<rparr>)
      else if fst (snd (fh_read fh (io s))) = 0
        then (if rx_next_zero s = 1 then DecodingDone else DecodingCobsError, 0,
              s\<lparr>rx_next_zero := 1, rx_next_pad := True, io := snd (snd (fh_read fh (io s)))\<rparr>)
      else if rx_next_zero s = 1
        then (DecodingContinue, 0,
              s\<lparr>rx_next_zero := fst (snd (fh_read fh (io s))),
                 rx_next_pad := (fst (snd (fh_read fh (io s))) = 255),
                 io := snd (snd (fh_read fh (io s)))\<rparr>)
      else (DecodingContinue, fst (snd (fh_read fh (io s))),
            s\<lparr>rx_next_zero := rx_next_zero s - 1, io := snd (snd (fh_read fh (io s)))\<rparr>))"
  using assms
  by (subst cobs_getc.simps) (auto simp add: getc_cases Let_def)

lemma cobs_getc_calls_two:
  "cobs_getc_calls fh s =
     (if fst (fh_read fh (io s)) = 1 \<and> fst (snd (fh_read fh (io s))) \<noteq> 0
           \<and> rx_next_zero s = 1 \<and> rx_next_pad s then 2 else 1)"
  by (subst cobs_getc_calls.simps) (auto simp add: getc_cases Let_def cobs_getc_calls_leaf)

lemma cobs_getc_io:
  "io (snd (snd (cobs_getc fh s))) = snd (snd (fh_read fh (io s))) \<or>
   io (snd (snd (cobs_getc fh s))) = snd (snd (fh_read fh (snd (snd (fh_read fh (io s))))))"
proof (cases "fst (fh_read fh (io s)) = 1 \<and> fst (snd (fh_read fh (io s))) \<noteq> 0 \<and> rx_next_zero s = 1 \<and> rx_next_pad s")
  case True
  then show ?thesis
    by (simp add: cobs_getc_recursive_call cobs_getc_leaf)
next
  case False
  then show ?thesis
    by (subst cobs_getc.simps) (auto simp add: getc_cases Let_def)
qed


subsection \<open>Decoder fields after a terminal status\<close>

text \<open>
  Claim C3 as stated says that after every terminal status, \<open>DecodingFileError\<close>
  included, the decoder fields are back at their initial values. The step returns a
  failed transport read before it touches the fields: on a fresh stream fed the bytes
  3, 0x11 and nothing more, the first step yields the data byte 0x11, and the second
  step returns \<open>DecodingFileError\<close> with the remaining count still 2 and the
  pending-overhead flag still false.
\<close>

theorem cobs_getc_file_error_no_reset:
  "fst (cobs_getc TestFileHandle
          (snd (snd (cobs_getc TestFileHandle (test_stream [3, 0x11])))))
     = DecodingFileError \<and>
   rx_next_zero (snd (snd (cobs_getc TestFileHandle
          (snd (snd (cobs_getc TestFileHandle (test_stream [3, 0x11]))))))) = 2 \<and>
   \<not> rx_next_pad (snd (snd (cobs_getc TestFileHandle
          (snd (snd (cobs_getc TestFileHandle (test_stream [3, 0x11])))))))"
  by code_simp

text \<open>
  Claim C3, amended: after every step that returns \<open>DecodingDone\<close> or
  \<open>DecodingCobsError\<close> the remaining count is 1 and the pending-overhead flag is true.
  A step that returns \<open>DecodingFileError\<close> resets nothing. Either its first read
  failed, and the two fields are as they were before the step; or the first read gave a
  control byte that owed no zero (the count was 1, the flag set, the byte not zero) and
  the second read failed, and then the remaining count is that control byte and the
  flag says whether that byte is 255.
\<close>

theorem cobs_getc_terminal_fields:
  assumes "cobs_getc fh s = (st, v, s')"
  shows "(st = DecodingDone \<or> st = DecodingCobsError
            \<longrightarrow> rx_next_zero s' = 1 \<and> rx_next_pad s') \<and>
         (st = DecodingFileError
            \<longrightarrow> (fst (fh_read fh (io s)) \<noteq> 1 \<and>
                   rx_next_zero s' = rx_next_zero s \<and> rx_next_pad s' = rx_next_pad s) \<or>
                (fst (fh_read fh (io s)) = 1 \<and> fst (snd (fh_read fh (io s))) \<noteq> 0 \<and>
                   rx_next_zero s = 1 \<and> rx_next_pad s \<and>
                   fst (fh_read fh (snd (snd (fh_read fh (io s))))) \<noteq> 1 \<and>
                   rx_next_zero s' = fst (snd (fh_read fh (io s))) \<and>
                   rx_next_pad s' = (fst (snd (fh_read fh (io s))) = 255)))"
  using assms cobs_getc_terminal_reset[of fh s st v s'] cobs_getc_file_error_state[of fh s v s']
  by blast

theorem cobs_getc_terminal_fields_witness:
  "fst (cobs_getc TestFileHandle (test_stream [0])) = DecodingDone \<and>
   rx_next_zero (snd (snd (cobs_getc TestFileHandle (test_stream [0])))) = 1 \<and>
   rx_next_pad (snd (snd (cobs_getc TestFileHandle (test_stream [0])))) \<and>
   fst (cobs_getc TestFileHandle (test_stream [3])) = DecodingFileError \<and>
   rx_next_zero (snd (snd (cobs_getc TestFileHandle (test_stream [3])))) = 3 \<and>
   \<not> rx_next_pad (snd (snd (cobs_getc TestFileHandle (test_stream [3]))))"
proof -
  have d: "fst (cobs_getc TestFileHandle (test_stream [0])) = DecodingDone"
    by code_simp
  have e: "fst (cobs_getc TestFileHandle (test_stream [3])) = DecodingFileError"
    by code_simp
  have r: "fst (fh_read TestFileHandle (io (test_stream [3]))) = 1"
    "fst (snd (fh_read TestFileHandle (io (test_stream [3])))) = 3"
    by code_simp+
  have "cobs_getc TestFileHandle (test_stream [0])
          = (DecodingDone, fst (snd (cobs_getc TestFileHandle (test_stream [0]))),
             snd (snd (cobs_getc TestFileHandle (test_stream [0]))))"
    using d by (metis prod.collapse)
  note a = cobs_getc_terminal_fields[OF this]
  have "cobs_getc TestFileHandle (test_stream [3])
          = (DecodingFileError, fst (snd (cobs_getc TestFileHandle (test_stream [3]))),
             snd (snd (cobs_getc TestFileHandle (test_stream [3]))))"
    using e by (metis prod.collapse)
  note b = cobs_getc_terminal_fields[OF this]
  from a b d e r show ?thesis
    by simp
qed

subsection \<open>Recursion of the decoder step\<close>

text \<open>
  Claim C9: one call of the step invokes itself at most once more. The count of
  invocations of a call is at most 2; the state a recursive invocation receives has the
  control byte \<open>b\<close> as its remaining count and \<open>b = 255\<close> as its flag, and from any such
  state the step does not recurse (a count of 1 comes with a cleared flag, a set flag
  with a count of 255); and the transport after the call is the transport after one
  read or after two. That the step is total is the termination proof of \<open>cobs_getc\<close>,
  whose measure is 1 where the count is 1 with the flag set and 0 elsewhere.
\<close>

theorem cobs_getc_recursion_bounded:
  "cobs_getc_calls fh s \<le> 2 \<and>
   cobs_getc_calls fh (s\<lparr>rx_next_zero := b, rx_next_pad := (b = 255)\<rparr>) = 1 \<and>
   (io (snd (snd (cobs_getc fh s))) = snd (snd (fh_read fh (io s))) \<or>
    io (snd (snd (cobs_getc fh s))) = snd (snd (fh_read fh (snd (snd (fh_read fh (io s)))))))"
  using cobs_getc_io[of fh s] by (simp add: cobs_getc_calls_le cobs_getc_calls_leaf)

subsection \<open>Zero bytes of the wire\<close>

text \<open>
  Claim C8: a zero byte read from the transport is never handed on as payload. In every
  invocation of the step, a successful read of a zero byte ends the call with
  \<open>DecodingDone\<close> or \<open>DecodingCobsError\<close>, for the first read of the call and for the
  second one (the read of the recursive invocation) alike. When the call returns
  \<open>DecodingContinue\<close>, the last byte it read is not zero, and the byte it hands on is
  either that byte or a zero of the step's own making.
\<close>

theorem cobs_getc_zero_terminal:
  assumes "cobs_getc fh s = (st, v, s')"
  shows "(fst (fh_read fh (io s)) = 1 \<and> fst (snd (fh_read fh (io s))) = 0
            \<longrightarrow> st = DecodingDone \<or> st = DecodingCobsError) \<and>
         (cobs_getc_calls fh s = 2
            \<and> fst (fh_read fh (snd (snd (fh_read fh (io s))))) = 1
            \<and> fst (snd (fh_read fh (snd (snd (fh_read fh (io s)))))) = 0
            \<longrightarrow> st = DecodingDone \<or> st = DecodingCobsError) \<and>
         (st = DecodingContinue
            \<longrightarrow> (if cobs_getc_calls fh s = 2
                  then fst (snd (fh_read fh (snd (snd (fh_read fh (io s))))))
                  else fst (snd (fh_read fh (io s)))) \<noteq> 0
                \<and> (v = 0 \<or> v = (if cobs_getc_calls fh s = 2
                  then fst (snd (fh_read fh (snd (snd (fh_read fh (io s))))))
                  else fst (snd (fh_read fh (io s))))))"
proof (cases "fst (fh_read fh (io s)) = 1 \<and> fst (snd (fh_read fh (io s))) \<noteq> 0 \<and> rx_next_zero s = 1 \<and> rx_next_pad s")
  case True
  then show ?thesis
    using assms by (auto simp add: cobs_getc_calls_two cobs_getc_recursive_call cobs_getc_leaf split: if_splits)
next
  case False
  then show ?thesis
    using assms
    by (subst (asm) cobs_getc.simps) (auto simp add: cobs_getc_calls_two getc_cases Let_def split: if_splits)
qed


theorem cobs_getc_zero_terminal_witness:
  "fst (cobs_getc TestFileHandle (test_stream [0])) = DecodingDone \<and>
   cobs_getc_calls TestFileHandle (test_stream [1, 0]) = 2 \<and>
   fst (cobs_getc TestFileHandle (test_stream [1, 0])) = DecodingDone \<and>
   fst (cobs_getc TestFileHandle (test_stream [2, 7])) = DecodingContinue \<and>
   fst (snd (cobs_getc TestFileHandle (test_stream [2, 7]))) = 7"
proof -
  have a: "fst (cobs_getc TestFileHandle (test_stream [2, 7])) = DecodingContinue"
    "fst (snd (cobs_getc TestFileHandle (test_stream [2, 7]))) = 7"
    "cobs_getc_calls TestFileHandle (test_stream [2, 7]) = 2"
    "fst (snd (fh_read TestFileHandle (snd (snd (fh_read TestFileHandle (io (test_stream [2, 7]))))))) = 7"
    by code_simp+
  have r: "fst (fh_read TestFileHandle (io (test_stream [0]))) = 1"
    "fst (snd (fh_read TestFileHandle (io (test_stream [0])))) = 0"
    "cobs_getc_calls TestFileHandle (test_stream [1, 0]) = 2"
    "fst (fh_read TestFileHandle (snd (snd (fh_read TestFileHandle (io (test_stream [1, 0])))))) = 1"
    "fst (snd (fh_read TestFileHandle (snd (snd (fh_read TestFileHandle (io (test_stream [1, 0]))))))) = 0"
    by code_simp+
  have c0: "cobs_getc TestFileHandle (test_stream [0]) =
      (fst (cobs_getc TestFileHandle (test_stream [0])),
       fst (snd (cobs_getc TestFileHandle (test_stream [0]))),
       snd (snd (cobs_getc TestFileHandle (test_stream [0]))))"
    by simp
  have c1: "cobs_getc TestFileHandle (test_stream [1, 0]) =
      (fst (cobs_getc TestFileHandle (test_stream [1, 0])),
       fst (snd (cobs_getc TestFileHandle (test_stream [1, 0]))),
       snd (snd (cobs_getc TestFileHandle (test_stream [1, 0]))))"
    by simp
  have c2: "cobs_getc TestFileHandle (test_stream [2, 7]) =
      (fst (cobs_getc TestFileHandle (test_stream [2, 7])),
       fst (snd (cobs_getc TestFileHandle (test_stream [2, 7]))),
       snd (snd (cobs_getc TestFileHandle (test_stream [2, 7]))))"
    by simp
  have n: "fst (cobs_getc TestFileHandle (test_stream [0])) \<noteq> DecodingCobsError"
    "fst (cobs_getc TestFileHandle (test_stream [1, 0])) \<noteq> DecodingCobsError"
    by code_simp+
  from cobs_getc_zero_terminal[OF c0] cobs_getc_zero_terminal[OF c1]
    cobs_getc_zero_terminal[OF c2] r a n
  show ?thesis by simp
qed
section \<open>Decoding a frame\<close>

lemma delivers_append:
  "delivers fh i (xs @ ys) i' \<longleftrightarrow> (\<exists>i1. delivers fh i xs i1 \<and> delivers fh i1 ys i')"
  by (induction xs arbitrary: i) (auto split: prod.splits)

lemma delivers_Cons:
  "delivers fh i (b # bs) i' \<longleftrightarrow> (\<exists>i1. fh_read fh i = (1, b, i1) \<and> delivers fh i1 bs i')"
  by (auto split: prod.splits)

declare delivers.simps(2) [simp del]

subsection \<open>The buffer and the counter of the loop\<close>

lemma store_from_append:
  "store_from data sz pos (xs @ ys) =
     store_from (store_from data sz pos xs) sz (pos_after pos (length xs)) ys"
  by (induction xs arbitrary: data pos) auto

lemma store_from_length [simp]: "length (store_from data sz pos vs) = length data"
  by (induction vs arbitrary: data pos) auto

lemma pos_after_add: "pos_after pos (m + n) = pos_after (pos_after pos m) n"
  by (induction m arbitrary: pos) auto

lemma store_from_snoc:
  "store_from data sz pos (pre @ [v]) =
     (if pos_after pos (length pre) < sz
      then (store_from data sz pos pre)[pos_after pos (length pre) := v]
      else store_from data sz pos pre)"
  by (simp add: store_from_append)

lemma pos_after_snoc:
  "pos_after pos (length (pre @ [v])) = (pos_after pos (length pre) + 1) mod 2 ^ 32"
  using pos_after_add[of pos "length pre" 1] by simp

lemma pos_after_small: "pos + n < 2 ^ 32 \<Longrightarrow> pos_after pos n = pos + n"
  by (induction n arbitrary: pos) auto

lemma pos_after_mod: "pos < 2 ^ 32 \<Longrightarrow> pos_after pos n = (pos + n) mod 2 ^ 32"
proof (induction n arbitrary: pos)
  case 0
  then show ?case by simp
next
  case (Suc n)
  have "pos_after ((pos + 1) mod 2 ^ 32) n = ((pos + 1) mod 2 ^ 32 + n) mod 2 ^ 32"
    by (rule Suc.IH) simp
  also have "\<dots> = (pos + 1 + n) mod 2 ^ 32"
    by (rule mod_add_left_eq)
  finally show ?case by simp
qed

lemma store_from_closed:
  assumes "sz \<le> length data" "pos \<le> sz" "pos + length vs < 2 ^ 32"
  shows "store_from data sz pos vs =
           take pos data @ take (sz - pos) vs @ drop (min sz (pos + length vs)) data"
  using assms
proof (induction vs arbitrary: pos data)
  case Nil
  then show ?case by (simp add: min_def)
next
  case (Cons v vs)
  have nw: "(pos + 1) mod 2 ^ 32 = Suc pos"
    using Cons.prems(3) by simp
  show ?case
  proof (cases "pos < sz")
    case True
    then have "store_from (data[pos := v]) sz (Suc pos) vs =
       take (Suc pos) (data[pos := v]) @ take (sz - Suc pos) vs
         @ drop (min sz (Suc pos + length vs)) (data[pos := v])"
      using Cons.prems by (intro Cons.IH) auto
    moreover have "take (Suc pos) (data[pos := v]) = take pos data @ [v]"
      using True Cons.prems by (simp add: take_Suc_conv_app_nth)
    moreover have "drop (min sz (Suc pos + length vs)) (data[pos := v])
        = drop (min sz (Suc pos + length vs)) data"
      using True by (simp add: min_def)
    moreover have "take (sz - pos) (v # vs) = v # take (sz - Suc pos) vs"
    proof -
      from True obtain k where k: "sz - pos = Suc k" by (cases "sz - pos") auto
      then have "sz - Suc pos = k" by simp
      with k show ?thesis by simp
    qed
    ultimately show ?thesis using True nw by simp
  next
    case False
    with Cons.prems have eq: "pos = sz" by simp
    have "store_from data sz (Suc sz) vs =
        take (Suc sz) data @ take (sz - Suc sz) vs @ drop (min sz (Suc sz + length vs)) data"
      if "Suc sz \<le> sz" 
      using that by simp
    have beyond: "store_from d sz p ws = d" if "sz \<le> p" "p + length ws < 2 ^ 32" for d p ws
      using that
    proof (induction ws arbitrary: p d)
      case Nil
      then show ?case by simp
    next
      case (Cons w ws)
      have "(p + 1) mod 2 ^ 32 = Suc p" using Cons.prems(2) by simp
      moreover have "store_from d sz (Suc p) ws = d"
        using Cons.prems by (intro Cons.IH) auto
      ultimately show ?case using Cons.prems(1) by simp
    qed
    have "store_from data sz pos (v # vs) = data"
      using eq Cons.prems(3) by (intro beyond) auto
    then show ?thesis using eq Cons.prems by simp
  qed
qed

lemma store_from_0:
  assumes "sz \<le> length data" "length vs < 2 ^ 32"
  shows "store_from data sz 0 vs = take sz vs @ drop (min sz (length vs)) data"
  using store_from_closed[OF assms(1), of 0 vs] assms(2) by simp

declare store_from.simps(2) [simp del]
declare pos_after.simps(2) [simp del]

subsection \<open>Steps of the loop\<close>

text \<open>
  Each step is stated for a loop that has decoded the bytes \<open>pre\<close> so far, starting from
  the buffer \<open>d0\<close> and the counter \<open>p0\<close>.
\<close>

lemma read_loop_end:
  assumes "fh_read fh (io s) = (1, 0, i1)"
  shows "read_loop fh s data sz pos =
     Some (if rx_next_zero s = 1 then DecodingDone else DecodingCobsError, data, pos,
           s\<lparr>rx_next_zero := 1, rx_next_pad := True, io := i1\<rparr>)"
  by (subst read_loop.simps) (simp add: cobs_getc_zero[OF assms])

lemma read_loop_data:
  assumes "fh_read fh (io s) = (1, b, i1)" "b \<noteq> 0" "rx_next_zero s \<noteq> 1"
  shows "read_loop fh s (store_from d0 sz p0 pre) sz (pos_after p0 (length pre)) =
     read_loop fh (s\<lparr>rx_next_zero := rx_next_zero s - 1, io := i1\<rparr>)
       (store_from d0 sz p0 (pre @ [b])) sz (pos_after p0 (length (pre @ [b])))"
  unfolding store_from_snoc pos_after_snoc
  by (subst read_loop.simps) (simp add: cobs_getc_data[OF assms])

lemma read_loop_control:
  assumes "fh_read fh (io s) = (1, b, i1)" "b \<noteq> 0" "rx_next_zero s = 1" "\<not> rx_next_pad s"
  shows "read_loop fh s (store_from d0 sz p0 pre) sz (pos_after p0 (length pre)) =
     read_loop fh (s\<lparr>rx_next_zero := b, rx_next_pad := (b = 255), io := i1\<rparr>)
       (store_from d0 sz p0 (pre @ [0])) sz (pos_after p0 (length (pre @ [0])))"
  unfolding store_from_snoc pos_after_snoc
  by (subst read_loop.simps) (simp add: cobs_getc_control[OF assms])

lemma read_loop_control_pad:
  assumes "fh_read fh (io s) = (1, b, i1)" "b \<noteq> 0" "rx_next_zero s = 1" "rx_next_pad s"
  shows "read_loop fh s data sz pos =
     read_loop fh (s\<lparr>rx_next_zero := b, rx_next_pad := (b = 255), io := i1\<rparr>) data sz pos"
  by (subst read_loop.simps, subst (2) read_loop.simps) (simp add: cobs_getc_control_pad[OF assms])

lemma u8_unat_of_nat: "n < 256 \<Longrightarrow> unat (of_nat n :: uint8_t) = n"
  by (simp add: unat_of_nat)

lemma u8_of_nat_Suc_neq_1:
  assumes "0 < n" "n < 255" shows "(of_nat (Suc n) :: uint8_t) \<noteq> 1"
proof
  assume a: "(of_nat (Suc n) :: uint8_t) = 1"
  have "unat (of_nat (Suc n) :: uint8_t) = Suc n"
    using assms by (intro u8_unat_of_nat) simp
  with a show False using assms by simp
qed

lemma read_loop_run:
  assumes "delivers fh (io s) c i'" "0 \<notin> set c" "length c < 255"
    "rx_next_zero s = of_nat (Suc (length c))"
  shows "read_loop fh s (store_from d0 sz p0 pre) sz (pos_after p0 (length pre)) =
     read_loop fh (s\<lparr>rx_next_zero := 1, io := i'\<rparr>)
       (store_from d0 sz p0 (pre @ c)) sz (pos_after p0 (length (pre @ c)))"
  using assms
proof (induction c arbitrary: s pre)
  case Nil
  then have "s\<lparr>rx_next_zero := 1, io := i'\<rparr> = s" by simp
  then show ?case by simp
next
  case (Cons b c)
  from Cons.prems(1) obtain i1 where rd: "fh_read fh (io s) = (1, b, i1)" and dl: "delivers fh i1 c i'"
    by (auto simp: delivers_Cons)
  let ?s1 = "s\<lparr>rx_next_zero := rx_next_zero s - 1, io := i1\<rparr>"
  have nz: "b \<noteq> 0" using Cons.prems(2) by auto
  have n1: "rx_next_zero s \<noteq> 1"
    using Cons.prems(3,4) u8_of_nat_Suc_neq_1[of "Suc (length c)"] by simp
  note step = read_loop_data[OF rd nz n1, of d0 sz p0 pre]
  have "read_loop fh ?s1 (store_from d0 sz p0 (pre @ [b])) sz (pos_after p0 (length (pre @ [b])))
        = read_loop fh (?s1\<lparr>rx_next_zero := 1, io := i'\<rparr>)
            (store_from d0 sz p0 ((pre @ [b]) @ c)) sz (pos_after p0 (length ((pre @ [b]) @ c)))"
    using dl Cons.prems by (intro Cons.IH) auto
  moreover have "?s1\<lparr>rx_next_zero := 1, io := i'\<rparr> = s\<lparr>rx_next_zero := 1, io := i'\<rparr>" by simp
  ultimately show ?case using step by simp
qed

lemma u8_of_nat_Suc_eq_255:
  assumes "n \<le> 254" shows "((of_nat (Suc n) :: uint8_t) = 255) = (n = 254)"
proof
  assume a: "(of_nat (Suc n) :: uint8_t) = 255"
  have "unat (of_nat (Suc n) :: uint8_t) = Suc n"
    using assms by (intro u8_unat_of_nat) simp
  with a show "n = 254" by simp
next
  assume "n = 254" then show "(of_nat (Suc n) :: uint8_t) = 255" by simp
qed

lemma u8_of_nat_Suc_neq_0:
  assumes "n \<le> 254" shows "(of_nat (Suc n) :: uint8_t) \<noteq> 0"
  using assms of_nat_neq_0[of "Suc n", where 'a=8] by simp

lemma read_loop_block:
  assumes "delivers fh (io s) (of_nat (Suc (length c)) # c) i'" "0 \<notin> set c" "length c \<le> 254"
    "rx_next_zero s = 1"
  shows "read_loop fh s (store_from d0 sz p0 pre) sz (pos_after p0 (length pre)) =
     read_loop fh (s\<lparr>rx_next_zero := 1, rx_next_pad := (length c = 254), io := i'\<rparr>)
       (store_from d0 sz p0 (pre @ (if rx_next_pad s then [] else [0]) @ c)) sz
       (pos_after p0 (length (pre @ (if rx_next_pad s then [] else [0]) @ c)))"
proof -
  let ?k = "of_nat (Suc (length c)) :: uint8_t"
  from assms(1) obtain i1 where rd: "fh_read fh (io s) = (1, ?k, i1)" and dl: "delivers fh i1 c i'"
    by (auto simp: delivers_Cons)
  have k0: "?k \<noteq> 0" by (rule u8_of_nat_Suc_neq_0[OF assms(3)])
  have k255: "(?k = 255) = (length c = 254)" by (rule u8_of_nat_Suc_eq_255[OF assms(3)])
  let ?s3 = "s\<lparr>rx_next_zero := ?k, rx_next_pad := (?k = 255), io := i1\<rparr>"
  have run: "read_loop fh ?s3 (store_from d0 sz p0 q) sz (pos_after p0 (length q)) =
      read_loop fh (?s3\<lparr>rx_next_zero := 1, io := i'\<rparr>)
        (store_from d0 sz p0 (q @ c)) sz (pos_after p0 (length (q @ c)))" for q
    using dl assms(2,3) by (intro read_loop_run) auto
  have fin: "?s3\<lparr>rx_next_zero := 1, io := i'\<rparr>
      = s\<lparr>rx_next_zero := 1, rx_next_pad := (length c = 254), io := i'\<rparr>"
    using k255 by simp
  show ?thesis
  proof (cases "rx_next_pad s")
    case True
    have "read_loop fh s (store_from d0 sz p0 pre) sz (pos_after p0 (length pre))
        = read_loop fh ?s3 (store_from d0 sz p0 pre) sz (pos_after p0 (length pre))"
      by (rule read_loop_control_pad[OF rd k0 assms(4) True])
    then show ?thesis using run[of pre] fin True by simp
  next
    case False
    have "read_loop fh s (store_from d0 sz p0 pre) sz (pos_after p0 (length pre))
        = read_loop fh ?s3 (store_from d0 sz p0 (pre @ [0])) sz (pos_after p0 (length (pre @ [0])))"
      by (rule read_loop_control[OF rd k0 assms(4) False])
    then show ?thesis using run[of "pre @ [0]"] fin False by simp
  qed
qed

lemma read_loop_frame_from:
  assumes "delivers fh (io s) (concat (spec_frame_writes c P)) i'" "0 \<notin> set c" "length c \<le> 254"
    "rx_next_zero s = 1"
  shows "read_loop fh s (store_from d0 sz p0 pre) sz (pos_after p0 (length pre)) =
     Some (DecodingDone,
           store_from d0 sz p0 (pre @ (if rx_next_pad s then [] else [0]) @ c @ P),
           pos_after p0 (length (pre @ (if rx_next_pad s then [] else [0]) @ c @ P)),
           s\<lparr>rx_next_zero := 1, rx_next_pad := True, io := i'\<rparr>)"
  using assms
proof (induction P arbitrary: c s pre)
  case Nil
  let ?e = "(if rx_next_pad s then [] else [0]) @ c"
  from Nil.prems(1) obtain i1 where
    b: "delivers fh (io s) (of_nat (Suc (length c)) # c) i1" and e: "delivers fh i1 [0] i'"
    using delivers_append[of fh "io s" "of_nat (Suc (length c)) # c" "[0]" i'] by auto
  let ?s1 = "s\<lparr>rx_next_zero := 1, rx_next_pad := (length c = 254), io := i1\<rparr>"
  note 1 = read_loop_block[OF b Nil.prems(2,3,4), of d0 sz p0 pre]
  have "fh_read fh (io ?s1) = (1, 0, i')"
    using e by (auto simp: delivers_Cons)
  from read_loop_end[OF this] 1 show ?case
    by simp
next
  case (Cons d ds)
  let ?e = "(if rx_next_pad s then [] else [0]) @ c"
  show ?case
  proof (cases "length c \<ge> 254")
    case full: True
    then have len: "length c = 254" using Cons.prems(3) by simp
    show ?thesis
    proof (cases "d = 0")
      case True
      from Cons.prems(1) full True obtain i1 i2 where
        b: "delivers fh (io s) (of_nat (Suc (length c)) # c) i1"
        and o: "delivers fh i1 [1] i2"
        and r: "delivers fh i2 (concat (spec_frame_writes [] ds)) i'"
        using delivers_append[of fh "io s" "of_nat (Suc (length c)) # c" "1 # concat (spec_frame_writes [] ds)" i']
          delivers_append[of fh _ "[1]" "concat (spec_frame_writes [] ds)" i']
        by auto
      let ?s1 = "s\<lparr>rx_next_zero := 1, rx_next_pad := (length c = 254), io := i1\<rparr>"
      let ?s2 = "s\<lparr>rx_next_zero := 1, rx_next_pad := False, io := i2\<rparr>"
      note 1 = read_loop_block[OF b Cons.prems(2,3,4), of d0 sz p0 pre]
      have "read_loop fh ?s1 (store_from d0 sz p0 q) sz (pos_after p0 (length q)) =
          read_loop fh (?s1\<lparr>rx_next_zero := 1, rx_next_pad := (length ([]::uint8_t list) = 254), io := i2\<rparr>)
            (store_from d0 sz p0 (q @ (if rx_next_pad ?s1 then [] else [0]) @ [])) sz
            (pos_after p0 (length (q @ (if rx_next_pad ?s1 then [] else [0]) @ ([]::uint8_t list))))" for q
        using o by (intro read_loop_block) auto
      then have 2: "read_loop fh ?s1 (store_from d0 sz p0 q) sz (pos_after p0 (length q))
          = read_loop fh ?s2 (store_from d0 sz p0 q) sz (pos_after p0 (length q))" for q
        using len by simp
      have 3: "read_loop fh ?s2 (store_from d0 sz p0 q) sz (pos_after p0 (length q)) =
        Some (DecodingDone,
           store_from d0 sz p0 (q @ (if rx_next_pad ?s2 then [] else [0]) @ [] @ ds),
           pos_after p0 (length (q @ (if rx_next_pad ?s2 then [] else [0]) @ [] @ ds)),
           ?s2\<lparr>rx_next_zero := 1, rx_next_pad := True, io := i'\<rparr>)" for q
        using r by (intro Cons.IH) auto
      show ?thesis using True 1 2[of "pre @ ?e"] 3[of "pre @ ?e"]
        by simp
    next
      case False
      from Cons.prems(1) full False obtain i1 where
        b: "delivers fh (io s) (of_nat (Suc (length c)) # c) i1"
        and r: "delivers fh i1 (concat (spec_frame_writes [d] ds)) i'"
        using delivers_append[of fh "io s" "of_nat (Suc (length c)) # c" "concat (spec_frame_writes [d] ds)" i']
        by auto
      let ?s1 = "s\<lparr>rx_next_zero := 1, rx_next_pad := (length c = 254), io := i1\<rparr>"
      note 1 = read_loop_block[OF b Cons.prems(2,3,4), of d0 sz p0 pre]
      have 3: "read_loop fh ?s1 (store_from d0 sz p0 q) sz (pos_after p0 (length q)) =
        Some (DecodingDone,
           store_from d0 sz p0 (q @ (if rx_next_pad ?s1 then [] else [0]) @ [d] @ ds),
           pos_after p0 (length (q @ (if rx_next_pad ?s1 then [] else [0]) @ [d] @ ds)),
           ?s1\<lparr>rx_next_zero := 1, rx_next_pad := True, io := i'\<rparr>)" for q
        using r False by (intro Cons.IH) auto
      show ?thesis using False 1 3[of "pre @ ?e"] len
        by simp
    qed
  next
    case notfull: False
    show ?thesis
    proof (cases "d = 0")
      case True
      from Cons.prems(1) notfull True obtain i1 where
        b: "delivers fh (io s) (of_nat (Suc (length c)) # c) i1"
        and r: "delivers fh i1 (concat (spec_frame_writes [] ds)) i'"
        using delivers_append[of fh "io s" "of_nat (Suc (length c)) # c" "concat (spec_frame_writes [] ds)" i']
        by auto
      let ?s1 = "s\<lparr>rx_next_zero := 1, rx_next_pad := (length c = 254), io := i1\<rparr>"
      note 1 = read_loop_block[OF b Cons.prems(2,3,4), of d0 sz p0 pre]
      have 3: "read_loop fh ?s1 (store_from d0 sz p0 q) sz (pos_after p0 (length q)) =
        Some (DecodingDone,
           store_from d0 sz p0 (q @ (if rx_next_pad ?s1 then [] else [0]) @ [] @ ds),
           pos_after p0 (length (q @ (if rx_next_pad ?s1 then [] else [0]) @ [] @ ds)),
           ?s1\<lparr>rx_next_zero := 1, rx_next_pad := True, io := i'\<rparr>)" for q
        using r by (intro Cons.IH) auto
      show ?thesis using True notfull 1 3[of "pre @ ?e"]
        by simp
    next
      case False
      from Cons.prems(1) notfull False have
        r: "delivers fh (io s) (concat (spec_frame_writes (c @ [d]) ds)) i'"
        by simp
      have "read_loop fh s (store_from d0 sz p0 pre) sz (pos_after p0 (length pre)) =
        Some (DecodingDone,
           store_from d0 sz p0 (pre @ (if rx_next_pad s then [] else [0]) @ (c @ [d]) @ ds),
           pos_after p0 (length (pre @ (if rx_next_pad s then [] else [0]) @ (c @ [d]) @ ds)),
           s\<lparr>rx_next_zero := 1, rx_next_pad := True, io := i'\<rparr>)"
        using r notfull False Cons.prems by (intro Cons.IH) auto
      then show ?thesis by simp
    qed
  qed
qed

lemma read_loop_frame:
  assumes "delivers fh (io s) (concat (spec_frame_writes c P)) i'" "0 \<notin> set c" "length c \<le> 254"
    "rx_next_zero s = 1"
  shows "read_loop fh s data sz pos =
     Some (DecodingDone,
           store_from data sz pos ((if rx_next_pad s then [] else [0]) @ c @ P),
           pos_after pos (length ((if rx_next_pad s then [] else [0]) @ c @ P)),
           s\<lparr>rx_next_zero := 1, rx_next_pad := True, io := i'\<rparr>)"
  using read_loop_frame_from[OF assms, of data sz pos "[]"] by simp

lemma spec_frame_writes_nonzero:
  assumes "0 \<notin> set P" "length c + length P \<le> 254"
  shows "spec_frame_writes c P = [of_nat (Suc (length c + length P)) # c @ P @ [0]]"
  using assms by (induction P arbitrary: c) auto

section \<open>Reading packets\<close>

subsection \<open>What a run of the loop returns\<close>


text \<open>
  The frame of any payload: \<open>read\<close> returns true, and the counter it reports has wrapped
  as often as the payload has \<open>2 ^ 32\<close> bytes.
\<close>

lemma read_frame_wraps:
  assumes "delivers fh (io s) (concat (spec_frame_writes [] P)) i'"
    and "rx_next_zero s = 1" "rx_next_pad s"
  shows "read fh s buf cap actual =
           Some (True, store_from buf cap 0 P, length P mod 2 ^ 32, s\<lparr>io := i'\<rparr>)"
proof -
  have "s\<lparr>rx_next_zero := 1, rx_next_pad := True, io := i'\<rparr> = s\<lparr>io := i'\<rparr>"
    using assms(2,3) by simp
  moreover have "pos_after 0 (length P) = length P mod 2 ^ 32"
    using pos_after_mod[of 0 "length P"] by simp
  ultimately show ?thesis
    using read_loop_frame[OF assms(1) _ _ assms(2), of buf cap 0] assms(3)
    by (simp add: read_def)
qed

lemma read_frame:
  assumes "delivers fh (io s) (concat (spec_frame_writes [] P)) i'"
    and "rx_next_zero s = 1" "rx_next_pad s" "cap \<le> length buf" "length P < 2 ^ 32"
  shows "read fh s buf cap actual =
           Some (True, take cap P @ drop (min cap (length P)) buf, length P, s\<lparr>io := i'\<rparr>)"
  using read_frame_wraps[OF assms(1,2,3), of buf cap actual] assms(5)
  by (simp add: store_from_0[OF assms(4,5)])

subsection \<open>The test file handle as a source of bytes\<close>

lemma test_read_next:
  assumes "read_size t = length (read_buf t)" "read_pos t < length (read_buf t)"
  shows "fh_read TestFileHandle t = (1, read_buf t ! read_pos t, t\<lparr>read_pos := Suc (read_pos t)\<rparr>)"
  using assms by (simp add: TestFileHandle_def test_read_def Let_def)

lemma test_delivers:
  assumes "read_size t = length (read_buf t)" "read_pos t + length bs \<le> length (read_buf t)"
    "take (length bs) (drop (read_pos t) (read_buf t)) = bs"
  shows "delivers TestFileHandle t bs (t\<lparr>read_pos := read_pos t + length bs\<rparr>)"
  using assms
proof (induction bs arbitrary: t)
  case Nil
  then show ?case by simp
next
  case (Cons b bs)
  let ?t1 = "t\<lparr>read_pos := Suc (read_pos t)\<rparr>"
  have lt: "read_pos t < length (read_buf t)" using Cons.prems(2) by simp
  then have dr: "drop (read_pos t) (read_buf t) = read_buf t ! read_pos t # drop (Suc (read_pos t)) (read_buf t)"
    by (simp add: Cons_nth_drop_Suc)
  have hd: "read_buf t ! read_pos t = b" and tl: "take (length bs) (drop (Suc (read_pos t)) (read_buf t)) = bs"
    using Cons.prems(3) dr by simp_all
  have "delivers TestFileHandle ?t1 bs (?t1\<lparr>read_pos := read_pos ?t1 + length bs\<rparr>)"
    using Cons.prems tl by (intro Cons.IH) auto
  then show ?case
    using test_read_next[OF Cons.prems(1) lt] hd by (simp add: delivers_Cons)
qed

lemma test_stream_delivers:
  "delivers TestFileHandle (io (test_stream (bs @ rest))) bs
     ((io (test_stream (bs @ rest)))\<lparr>read_pos := length bs\<rparr>)"
  using test_delivers[of "io (test_stream (bs @ rest))" bs]
  by (simp add: test_stream_def PacketStream_new_def read_set_next_def)

lemma test_stream_delivers_all:
  "delivers TestFileHandle (io (test_stream bs)) bs ((io (test_stream bs))\<lparr>read_pos := length bs\<rparr>)"
  using test_stream_delivers[of bs "[]"] by simp

lemma test_stream_rx:
  "rx_next_zero (test_stream bs) = 1" "rx_next_pad (test_stream bs)"
  by (simp_all add: test_stream_def PacketStream_new_def)

lemma line_delivers: "delivers LineFileHandle (bs @ rest) bs rest"
  by (induction bs) (simp_all add: delivers_Cons LineFileHandle_def line_read_def)

subsection \<open>A malformed frame\<close>

lemma read_loop_malformed:
  assumes "delivers fh (io s) [1, 2, 0] i'" "rx_next_zero s = 1" "rx_next_pad s"
  shows "read_loop fh s data sz 0 =
           Some (DecodingCobsError, store_from data sz 0 [0], 1, s\<lparr>io := i'\<rparr>)"
proof -
  from assms(1) obtain i1 i2 where r1: "fh_read fh (io s) = (1, 1, i1)"
    and r2: "fh_read fh i1 = (1, 2, i2)" and r3: "fh_read fh i2 = (1, 0, i')"
    by (auto simp: delivers_Cons)
  let ?s1 = "s\<lparr>rx_next_zero := 1, rx_next_pad := (1 = (255 :: uint8_t)), io := i1\<rparr>"
  let ?s2 = "?s1\<lparr>rx_next_zero := 2, rx_next_pad := (2 = (255 :: uint8_t)), io := i2\<rparr>"
  have p1: "pos_after 0 (length [0 :: uint8_t]) = 1"
    using pos_after_small[of 0 1] by simp
  have 1: "read_loop fh s data sz 0 = read_loop fh ?s1 data sz 0"
    using r1 assms(2,3) by (intro read_loop_control_pad) simp_all
  have "read_loop fh ?s1 (store_from data sz 0 []) sz (pos_after 0 (length ([] :: uint8_t list))) =
      read_loop fh ?s2 (store_from data sz 0 ([] @ [0])) sz (pos_after 0 (length ([] @ [0 :: uint8_t])))"
    using r2 by (intro read_loop_control) simp_all
  then have 2: "read_loop fh ?s1 data sz 0 = read_loop fh ?s2 (store_from data sz 0 [0]) sz 1"
    using p1 by simp
  have 3: "read_loop fh ?s2 (store_from data sz 0 [0]) sz 1 =
      Some (if rx_next_zero ?s2 = 1 then DecodingDone else DecodingCobsError,
            store_from data sz 0 [0], 1, ?s2\<lparr>rx_next_zero := 1, rx_next_pad := True, io := i'\<rparr>)"
    using r3 by (intro read_loop_end) simp
  have "?s2\<lparr>rx_next_zero := 1, rx_next_pad := True, io := i'\<rparr> = s\<lparr>io := i'\<rparr>"
    using assms(2,3) by simp
  with 1 2 3 show ?thesis
    by simp
qed

text \<open>
  Claim C5: the wire bytes 0x01, 0x02, 0x00 are a malformed frame. On a stream whose
  decoder is in its initial state and whose transport delivers these three bytes, the
  loop of \<open>read\<close> stops on \<open>DecodingCobsError\<close> (after the one zero the second length
  byte owes, stored if the buffer has room), and \<open>read\<close> returns false and leaves
  \<^verbatim>\<open>*actual\<close> alone.
\<close>

theorem read_malformed_frame:
  assumes "delivers fh (io s) [1, 2, 0] i'" "rx_next_zero s = 1" "rx_next_pad s"
    and "sz \<le> length data"
  shows "read_loop fh s data sz 0 =
           Some (DecodingCobsError, take sz [0] @ drop (min sz 1) data, 1, s\<lparr>io := i'\<rparr>) \<and>
         read fh s data sz actual =
           Some (False, take sz [0] @ drop (min sz 1) data, actual, s\<lparr>io := i'\<rparr>)"
proof -
  have "store_from data sz 0 [0] = take sz [0] @ drop (min sz (length [0 :: uint8_t])) data"
    by (rule store_from_0[OF assms(4)]) simp
  then have "store_from data sz 0 [0] = take sz [0] @ drop (min sz 1) data"
    by simp
  with read_loop_malformed[OF assms(1,2,3), of data sz] show ?thesis
    by (simp add: read_def)
qed

theorem read_malformed_frame_witness:
  "read TestFileHandle (test_stream [1, 2, 0]) [7, 7, 7, 7] 4 99 =
     Some (False, [0, 7, 7, 7], 99,
           (test_stream [1, 2, 0])\<lparr>io := (io (test_stream [1, 2, 0]))\<lparr>read_pos := 3\<rparr>\<rparr>)"
  using read_malformed_frame[OF test_stream_delivers_all[of "[1, 2, 0]"] test_stream_rx,
      of 4 "[7, 7, 7, 7]" 99]
  by simp

subsection \<open>The frame after a malformed one\<close>



subsection \<open>A caller buffer smaller than the packet\<close>



subsection \<open>The terminator that scanf writes\<close>

lemma scanf_frame:
  assumes "delivers fh (io s) (concat (spec_frame_writes [] P)) i'"
    and "rx_next_zero s = 1" "rx_next_pad s"
  shows "scanf fh vsscanf s buf format =
     Some (if length P mod 2 ^ 32 \<le> 64
           then Inr (if vsscanf ((store_from buf 64 0 P)[length P mod 2 ^ 32 := 0]) format \<noteq> 0
                     then 1 else 0, s\<lparr>io := i'\<rparr>)
           else Inl (StoreOutOfBounds (length P mod 2 ^ 32)))"
  using read_frame_wraps[OF assms, of buf 64 0]
  by (simp add: scanf_def)

lemma scanf_short_buffer:
  assumes "length P \<le> 64" "length buf = 65"
  shows "(store_from buf 64 0 P)[length P := 0] = P @ 0 # drop (Suc (length P)) buf"
proof -
  have "store_from buf 64 0 P = take 64 P @ drop (min 64 (length P)) buf"
    using assms by (intro store_from_0) simp_all
  moreover obtain b rest where dr: "drop (length P) buf = b # rest"
    using assms by (cases "drop (length P) buf") auto
  moreover from dr have "drop (Suc (length P)) buf = rest"
    by (metis drop_Suc drop_drop list.sel(3) plus_1_eq_Suc tl_drop)
  ultimately show ?thesis
    using assms(1) by (simp add: min_def list_update_append)
qed

text \<open>
  Claim C10 as stated says that for any received packet of more than 64 bytes the index
  of the terminating zero is past the end of the array. A packet of \<open>2 ^ 32 + 10\<close> bytes
  on a serial line is longer than 64 bytes; the counter of \<open>read\<close> wraps once, \<open>read\<close>
  reports the length 10, and \<open>scanf\<close> stores its zero at the index 10, inside the array,
  and goes on to call \<^verbatim>\<open>vsscanf\<close>.
\<close>

theorem scanf_wrapped_index_in_bounds:
  "64 < length (replicate (2 ^ 32 + 10) (0x41 :: uint8_t)) \<and>
   map_option (\<lambda>r. (fst r, fst (snd (snd r))))
     (read LineFileHandle
        (PacketStream_new (replicate 257 0) (concat (spec_frame_writes [] (replicate (2 ^ 32 + 10) 0x41))))
        (replicate 65 0) 64 0)
     = Some (True, 10) \<and>
   scanf LineFileHandle (\<lambda>b f. 1)
     (PacketStream_new (replicate 257 0) (concat (spec_frame_writes [] (replicate (2 ^ 32 + 10) 0x41))))
     (replicate 65 0) ''%i''
     = Some (Inr (1, PacketStream_new (replicate 257 0) []))"
proof -
  define P where "P = replicate (2 ^ 32 + 10) (0x41 :: uint8_t)"
  let ?s = "PacketStream_new (replicate 257 0) (concat (spec_frame_writes [] P))"
  have len: "length P = 2 ^ 32 + 10"
    by (simp add: P_def)
  have d: "delivers LineFileHandle (io ?s) (concat (spec_frame_writes [] P)) []"
    using line_delivers[of "concat (spec_frame_writes [] P)" "[]"]
    by (simp add: PacketStream_new_def)
  have rx: "rx_next_zero ?s = 1" "rx_next_pad ?s"
    by (simp_all add: PacketStream_new_def)
  have "scanf LineFileHandle (\<lambda>b f. 1) ?s (replicate 65 0) ''%i'' = Some (Inr (1, ?s\<lparr>io := []\<rparr>))"
    using scanf_frame[OF d rx, of "\<lambda>b f. 1" "replicate 65 0" "''%i''"] len
    by simp
  moreover have "?s\<lparr>io := []\<rparr> = PacketStream_new (replicate 257 0) []"
    by (simp add: PacketStream_new_def)
  moreover have "map_option (\<lambda>r. (fst r, fst (snd (snd r)))) (read LineFileHandle ?s (replicate 65 0) 64 0)
      = Some (True, 10)"
    using read_frame_wraps[OF d rx, of "replicate 65 0" 64 0] len
    by simp
  ultimately show ?thesis
    using len by (simp add: P_def)
qed

text \<open>
  Claim C10, as amended: \<open>scanf\<close> reads a packet into its 65-byte array with capacity 64
  and then stores a zero at the index \<^verbatim>\<open>actual\<close>, which is the length of the whole
  packet modulo \<open>2 ^ 32\<close> (the \<^verbatim>\<open>size_t\<close> counter of \<open>read\<close>). For the frame of a payload
  \<open>P\<close>: the store is inside the array exactly when that index is at most 64, and
  \<^verbatim>\<open>vsscanf\<close> is then given what the loop of \<open>read\<close> stored, with the zero. When \<open>P\<close> has at
  most 64 bytes that is \<open>P\<close> followed by the zero; when \<open>P\<close> has more than 64 and fewer
  than \<open>2 ^ 32\<close> bytes the index is \<open>length P\<close>, past the last slot of the array.
\<close>

theorem scanf_terminator_index:
  assumes "delivers fh (io s) (concat (spec_frame_writes [] P)) i'"
    and "rx_next_zero s = 1" "rx_next_pad s" "length buf = 65"
  shows "scanf fh vsscanf s buf format =
     Some (if length P mod 2 ^ 32 \<le> 64
           then Inr (if vsscanf ((store_from buf 64 0 P)[length P mod 2 ^ 32 := 0]) format \<noteq> 0
                     then 1 else 0, s\<lparr>io := i'\<rparr>)
           else Inl (StoreOutOfBounds (length P mod 2 ^ 32))) \<and>
     (length P \<le> 64 \<longrightarrow>
        scanf fh vsscanf s buf format =
          Some (Inr (if vsscanf (P @ 0 # drop (Suc (length P)) buf) format \<noteq> 0 then 1 else 0,
                     s\<lparr>io := i'\<rparr>))) \<and>
     (64 < length P \<and> length P < 2 ^ 32 \<longrightarrow>
        scanf fh vsscanf s buf format = Some (Inl (StoreOutOfBounds (length P))))"
proof (intro conjI impI)
  show "scanf fh vsscanf s buf format =
     Some (if length P mod 2 ^ 32 \<le> 64
           then Inr (if vsscanf ((store_from buf 64 0 P)[length P mod 2 ^ 32 := 0]) format \<noteq> 0
                     then 1 else 0, s\<lparr>io := i'\<rparr>)
           else Inl (StoreOutOfBounds (length P mod 2 ^ 32)))"
    by (rule scanf_frame[OF assms(1,2,3)])
next
  assume le: "length P \<le> 64"
  then have m: "length P mod 2 ^ 32 = length P"
    by simp
  show "scanf fh vsscanf s buf format =
          Some (Inr (if vsscanf (P @ 0 # drop (Suc (length P)) buf) format \<noteq> 0 then 1 else 0,
                     s\<lparr>io := i'\<rparr>))"
    using scanf_frame[OF assms(1,2,3), of vsscanf buf format] le
    unfolding m scanf_short_buffer[OF le assms(4)]
    by simp
next
  assume gt: "64 < length P \<and> length P < 2 ^ 32"
  then have m: "length P mod 2 ^ 32 = length P"
    by simp
  show "scanf fh vsscanf s buf format = Some (Inl (StoreOutOfBounds (length P)))"
    using scanf_frame[OF assms(1,2,3), of vsscanf buf format] gt
    unfolding m
    by simp
qed

theorem scanf_terminator_index_witness:
  "scanf TestFileHandle (\<lambda>b f. 1) (test_stream (66 # replicate 65 0x41 @ [0])) (replicate 65 0) ''%i''
     = Some (Inl (StoreOutOfBounds 65)) \<and>
   scanf TestFileHandle (\<lambda>b f. 1) (test_stream [2, 0x37, 0]) (replicate 65 0) ''%i''
     = Some (Inr (1, (test_stream [2, 0x37, 0])\<lparr>io := (io (test_stream [2, 0x37, 0]))\<lparr>read_pos := 3\<rparr>\<rparr>))"
proof -
  have f: "concat (spec_frame_writes [] (replicate 65 0x41)) = 66 # replicate 65 0x41 @ [0]"
    by (simp add: spec_frame_writes_nonzero)
  have g: "concat (spec_frame_writes [] [0x37]) = [2, 0x37, 0]"
    by simp
  let ?s = "test_stream (66 # replicate 65 0x41 @ [0])"
  let ?t = "test_stream [2, 0x37, 0]"
  have d: "delivers TestFileHandle (io ?s) (concat (spec_frame_writes [] (replicate 65 0x41)))
             ((io ?s)\<lparr>read_pos := length (66 # replicate 65 (0x41 :: uint8_t) @ [0])\<rparr>)"
    unfolding f by (rule test_stream_delivers_all)
  have e: "delivers TestFileHandle (io ?t) (concat (spec_frame_writes [] [0x37]))
             ((io ?t)\<lparr>read_pos := length [2, 0x37, 0 :: uint8_t]\<rparr>)"
    unfolding g by (rule test_stream_delivers_all)
  from scanf_terminator_index[OF d test_stream_rx, of "replicate 65 0" "\<lambda>b f. 1" "''%i''"]
    scanf_terminator_index[OF e test_stream_rx, of "replicate 65 0" "\<lambda>b f. 1" "''%i''"]
  show ?thesis by simp
qed
section \<open>The encoder against its specification\<close>

lemma write_all_append:
  "write_all fh success i (xs @ ys) =
     write_all fh (fst (write_all fh success i xs)) (snd (write_all fh success i xs)) ys"
  by (induction xs arbitrary: success i) (auto split: prod.splits)

lemma tx_block_buf:
  assumes "tx_block s c"
  obtains b0 rest where "tx_buf s = b0 # c @ rest" "length rest = 256 - length c"
proof -
  from assms have l: "length (tx_buf s) = 257" and c: "take (length c) (tl (tx_buf s)) = c"
    and n: "length c \<le> 254"
    by (auto simp: tx_block_def)
  from l obtain b0 t where bt: "tx_buf s = b0 # t" by (cases "tx_buf s") auto
  with c have "t = c @ drop (length c) t"
    by (metis append_take_drop_id list.sel(3))
  with bt l n that[of b0 "drop (length c) t"] show ?thesis by auto
qed

lemma tx_block_ge_255: "tx_block s c \<Longrightarrow> (255 \<le> tx_pos s) = (254 \<le> length c)"
  by (auto simp: tx_block_def word_le_nat_alt)

lemma tx_block_ucast: "tx_block s c \<Longrightarrow> (ucast (tx_pos s) :: uint8_t) = of_nat (Suc (length c))"
  by (metis of_nat_unat tx_block_def)

lemma tx_block_uint: "tx_block s c \<Longrightarrow> uint (tx_pos s) = int (Suc (length c))"
  by (metis uint_nat tx_block_def)

lemma io_write_tx_block:
  assumes "tx_block s c"
  shows "io_write_tx fh success (s\<lparr>tx_buf := (tx_buf s)[0 := ucast (tx_pos s)]\<rparr>) =
     (fst (write_all fh success (io s) [of_nat (Suc (length c)) # c]),
      s\<lparr>tx_buf := (tx_buf s)[0 := of_nat (Suc (length c))],
        io := snd (write_all fh success (io s) [of_nat (Suc (length c)) # c])\<rparr>)"
proof -
  from assms obtain b0 rest where buf: "tx_buf s = b0 # c @ rest"
    by (rule tx_block_buf)
  have u: "unat (tx_pos s) = Suc (length c)" using assms by (simp add: tx_block_def)
  show ?thesis
    by (simp add: io_write_tx_def tx_block_ucast[OF assms] tx_block_uint[OF assms] u buf split: prod.splits)
qed


lemma tx_block_buf2:
  assumes "tx_block s c"
  obtains b0 r0 rest where "tx_buf s = b0 # c @ r0 # rest" "length rest = 255 - length c"
proof -
  from assms obtain b0 r where b: "tx_buf s = b0 # c @ r" and l: "length r = 256 - length c"
    by (rule tx_block_buf)
  from assms have "length c \<le> 254" by (simp add: tx_block_def)
  with l obtain r0 rest where "r = r0 # rest" by (cases r) auto
  with b l that[of b0 r0 rest] show ?thesis by auto
qed

lemma tx_block_unat_Suc:
  assumes "tx_block s c"
  shows "unat (tx_pos s + 1) = Suc (Suc (length c))"
proof -
  have u: "unat (tx_pos s) = Suc (length c)" and n: "length c \<le> 254"
    using assms by (simp_all add: tx_block_def)
  have "unat (tx_pos s) + unat (1 :: uint16_t) < 2 ^ LENGTH(16)"
    using u n by simp
  then have "unat (tx_pos s + 1) = unat (tx_pos s) + unat (1 :: uint16_t)"
    by (simp only: unat_add_lem)
  then show ?thesis using u by simp
qed

lemma take1_update0: "0 < length xs \<Longrightarrow> take (Suc 0) (xs[0 := d]) = [d]"
  by (cases xs) auto

lemma cobs_write_step_refines:
  assumes "tx_block s c"
  shows "fst (cobs_write_step fh success s d) = fst (write_all fh success (io s) (spec_step_writes c d))"
    and "io (snd (cobs_write_step fh success s d)) = snd (write_all fh success (io s) (spec_step_writes c d))"
    and "tx_block (snd (cobs_write_step fh success s d)) (spec_step_block c d)"
    and "rx_next_zero (snd (cobs_write_step fh success s d)) = rx_next_zero s"
    and "rx_next_pad (snd (cobs_write_step fh success s d)) = rx_next_pad s"
proof -
  from assms obtain b0 r0 rest where buf: "tx_buf s = b0 # c @ r0 # rest"
    and lr: "length rest = 255 - length c"
    by (rule tx_block_buf2)
  have u: "unat (tx_pos s) = Suc (length c)" and n: "length c \<le> 254"
    using assms by (simp_all add: tx_block_def)
  note u1 = tx_block_unat_Suc[OF assms]
  have uc: "(ucast (tx_pos s) :: uint8_t) = of_nat (Suc (length c))"
    by (rule tx_block_ucast[OF assms])
  have ui: "uint (tx_pos s) = int (Suc (length c))"
    by (rule tx_block_uint[OF assms])
  have ge: "(255 \<le> tx_pos s) = (254 \<le> length c)"
    by (rule tx_block_ge_255[OF assms])
  show "fst (cobs_write_step fh success s d) = fst (write_all fh success (io s) (spec_step_writes c d))"
    using n by (auto simp add: cobs_write_step_def io_write_tx_def spec_step_writes_def buf u uc ui ge Let_def
        split: prod.splits)
  show "io (snd (cobs_write_step fh success s d)) = snd (write_all fh success (io s) (spec_step_writes c d))"
    using n by (auto simp add: cobs_write_step_def io_write_tx_def spec_step_writes_def buf u uc ui ge Let_def
        split: prod.splits)
  show "rx_next_zero (snd (cobs_write_step fh success s d)) = rx_next_zero s"
    by (auto simp add: cobs_write_step_def io_write_tx_def Let_def split: prod.splits)
  show "rx_next_pad (snd (cobs_write_step fh success s d)) = rx_next_pad s"
    by (auto simp add: cobs_write_step_def io_write_tx_def Let_def split: prod.splits)
  show "tx_block (snd (cobs_write_step fh success s d)) (spec_step_block c d)"
    using n lr u1
    by (auto simp add: cobs_write_step_def io_write_tx_def spec_step_block_def tx_block_def buf u uc ui ge Let_def
        take1_update0 split: prod.splits)
qed

lemma spec_frame_writes_Cons:
  "spec_frame_writes c (d # ds) = spec_step_writes c d @ spec_frame_writes (spec_step_block c d) ds"
  by (simp add: spec_step_writes_def spec_step_block_def)

lemma cobs_write_last_refines:
  assumes "tx_block s c"
  shows "fst (cobs_write_last fh success s)
           = fst (write_all fh success (io s) [of_nat (Suc (length c)) # c @ [0]])"
    and "io (snd (cobs_write_last fh success s))
           = snd (write_all fh success (io s) [of_nat (Suc (length c)) # c @ [0]])"
    and "tx_block (snd (cobs_write_last fh success s)) []"
    and "tx_buf (snd (cobs_write_last fh success s)) ! 0 = 0"
    and "rx_next_zero (snd (cobs_write_last fh success s)) = rx_next_zero s"
    and "rx_next_pad (snd (cobs_write_last fh success s)) = rx_next_pad s"
proof -
  from assms obtain b0 r0 rest where buf: "tx_buf s = b0 # c @ r0 # rest"
    and lr: "length rest = 255 - length c"
    by (rule tx_block_buf2)
  have u: "unat (tx_pos s) = Suc (length c)" and n: "length c \<le> 254"
    using assms by (simp_all add: tx_block_def)
  note u1 = tx_block_unat_Suc[OF assms]
  have uc: "(ucast (tx_pos s) :: uint8_t) = of_nat (Suc (length c))"
    by (rule tx_block_ucast[OF assms])
  have ui: "uint (tx_pos s + 1) = int (Suc (Suc (length c)))"
    using u1 by (metis uint_nat)
  show "fst (cobs_write_last fh success s)
           = fst (write_all fh success (io s) [of_nat (Suc (length c)) # c @ [0]])"
    by (auto simp add: cobs_write_last_def io_write_tx_def buf u u1 uc ui Let_def split: prod.splits)
  show "io (snd (cobs_write_last fh success s))
           = snd (write_all fh success (io s) [of_nat (Suc (length c)) # c @ [0]])"
    by (auto simp add: cobs_write_last_def io_write_tx_def buf u u1 uc ui Let_def split: prod.splits)
  show "tx_block (snd (cobs_write_last fh success s)) []"
    using n lr
    by (auto simp add: cobs_write_last_def io_write_tx_def tx_block_def buf u Let_def split: prod.splits)
  show "tx_buf (snd (cobs_write_last fh success s)) ! 0 = 0"
    by (auto simp add: cobs_write_last_def io_write_tx_def buf u Let_def split: prod.splits)
  show "rx_next_zero (snd (cobs_write_last fh success s)) = rx_next_zero s"
    by (auto simp add: cobs_write_last_def io_write_tx_def Let_def split: prod.splits)
  show "rx_next_pad (snd (cobs_write_last fh success s)) = rx_next_pad s"
    by (auto simp add: cobs_write_last_def io_write_tx_def Let_def split: prod.splits)
qed

lemma cobs_write_loop_last_refines:
  assumes "tx_block s c"
  shows "fst (cobs_write_last fh (fst (cobs_write_loop fh success s P)) (snd (cobs_write_loop fh success s P)))
           = fst (write_all fh success (io s) (spec_frame_writes c P)) \<and>
         io (snd (cobs_write_last fh (fst (cobs_write_loop fh success s P)) (snd (cobs_write_loop fh success s P))))
           = snd (write_all fh success (io s) (spec_frame_writes c P)) \<and>
         tx_block (snd (cobs_write_last fh (fst (cobs_write_loop fh success s P)) (snd (cobs_write_loop fh success s P)))) [] \<and>
         tx_buf (snd (cobs_write_last fh (fst (cobs_write_loop fh success s P)) (snd (cobs_write_loop fh success s P)))) ! 0 = 0 \<and>
         rx_next_zero (snd (cobs_write_last fh (fst (cobs_write_loop fh success s P)) (snd (cobs_write_loop fh success s P)))) = rx_next_zero s \<and>
         rx_next_pad (snd (cobs_write_last fh (fst (cobs_write_loop fh success s P)) (snd (cobs_write_loop fh success s P)))) = rx_next_pad s"
  using assms
proof (induction P arbitrary: s c success)
  case Nil
  then show ?case
    by (simp add: cobs_write_last_refines)
next
  case (Cons d ds)
  let ?r = "cobs_write_step fh success s d"
  note st = cobs_write_step_refines[OF Cons.prems, of fh success d]
  have loop: "cobs_write_loop fh success s (d # ds) = cobs_write_loop fh (fst ?r) (snd ?r) ds"
    by (simp split: prod.splits)
  from Cons.IH[OF st(3), of "fst ?r"] show ?case
    unfolding loop spec_frame_writes_Cons write_all_append
    by (simp add: st)
qed

lemma write_packet_refines:
  assumes "tx_block s []"
  shows "fst (write_packet fh s P) = fst (write_all fh True (io s) (spec_frame_writes [] P))"
    and "io (snd (write_packet fh s P)) = snd (write_all fh True (io s) (spec_frame_writes [] P))"
    and "tx_block (snd (write_packet fh s P)) []"
    and "tx_buf (snd (write_packet fh s P)) ! 0 = 0"
    and "rx_next_zero (snd (write_packet fh s P)) = rx_next_zero s"
    and "rx_next_pad (snd (write_packet fh s P)) = rx_next_pad s"
  using cobs_write_loop_last_refines[OF assms, of fh True P]
  by (simp_all add: write_packet_def cobs_write_def case_prod_beta)
section \<open>The frames the encoder writes\<close>

lemma tx_block_new: "length mem = 257 \<Longrightarrow> tx_block (PacketStream_new mem i) []"
  by (simp add: tx_block_def PacketStream_new_def)

lemma tx_block_test_stream: "tx_block (test_stream bs) []"
  by (simp add: test_stream_def tx_block_new)

lemma TestFileHandle_write [simp]: "fh_write TestFileHandle = test_write"
  by (simp add: TestFileHandle_def)

lemma test_write_all_valid:
  "write_valid (snd (write_all TestFileHandle ok t W)) =
     (write_valid_flag t \<and> write_pos t + length (concat W) = write_size t \<and>
      take (length (concat W)) (drop (write_pos t) (write_buf t)) = concat W)"
proof (induction W arbitrary: ok t)
  case Nil
  then show ?case by (simp add: write_valid_def)
next
  case (Cons b bs)
  let ?n = "length b" and ?m = "length (concat bs)"
  have split: "take (?n + ?m) (drop (write_pos t) (write_buf t)) =
      take ?n (drop (write_pos t) (write_buf t)) @ take ?m (drop (write_pos t + ?n) (write_buf t))"
    by (simp add: take_add add.commute)
  show ?case
  proof (cases "write_pos t + ?n > write_size t")
    case True
    then show ?thesis
      by (simp add: test_write_def Let_def Cons.IH)
  next
    case le: False
    show ?thesis
    proof (cases "b = take ?n (drop (write_pos t) (write_buf t))")
      case True
      then have "take ?n (drop (write_pos t) (write_buf t)) @ take ?m (drop (write_pos t + ?n) (write_buf t)) = b @ concat bs
          \<longleftrightarrow> take ?m (drop (write_pos t + ?n) (write_buf t)) = concat bs"
        by (metis same_append_eq)
      with le True split show ?thesis
        by (simp add: test_write_def Let_def Cons.IH add.assoc)
    next
      case False
      have "take (?n + ?m) (drop (write_pos t) (write_buf t)) \<noteq> b @ concat bs"
      proof
        assume "take (?n + ?m) (drop (write_pos t) (write_buf t)) = b @ concat bs"
        then have "take ?n (take (?n + ?m) (drop (write_pos t) (write_buf t))) = b"
          by simp
        then have "take ?n (drop (write_pos t) (write_buf t)) = b"
          by (simp add: min_def)
        with False show False by simp
      qed
      with le False show ?thesis
        by (simp add: test_write_def Let_def Cons.IH)
    qed
  qed
qed

lemma test_write_all_flag: "fst (write_all TestFileHandle ok t W) = ok"
  by (induction W arbitrary: ok t) (auto simp: test_write_def Let_def)

lemma tx_block_io_update: "tx_block (s\<lparr>io := i\<rparr>) c = tx_block s c"
  by (simp add: tx_block_def)

lemma test_write_packet:
  assumes "tx_block s []"
  shows "fst (write_packet TestFileHandle (s\<lparr>io := write_set_expected (io s) e n\<rparr>) P)"
    and "write_valid (io (snd (write_packet TestFileHandle (s\<lparr>io := write_set_expected (io s) e n\<rparr>) P)))
          = (n = length (concat (spec_frame_writes [] P)) \<and> take n e = concat (spec_frame_writes [] P))"
proof -
  have b: "tx_block (s\<lparr>io := write_set_expected (io s) e n\<rparr>) []"
    using assms by (simp add: tx_block_io_update)
  show "fst (write_packet TestFileHandle (s\<lparr>io := write_set_expected (io s) e n\<rparr>) P)"
    by (simp add: write_packet_refines(1)[OF b] test_write_all_flag)
  show "write_valid (io (snd (write_packet TestFileHandle (s\<lparr>io := write_set_expected (io s) e n\<rparr>) P)))
          = (n = length (concat (spec_frame_writes [] P)) \<and> take n e = concat (spec_frame_writes [] P))"
    unfolding write_packet_refines(2)[OF b] test_write_all_valid
    by (auto simp add: write_set_expected_def)
qed

lemma u8_nonzero_upt: "n \<le> 256 \<Longrightarrow> 0 \<notin> set (map of_nat [1..<n] :: uint8_t list)"
proof
  assume n: "n \<le> 256" and "0 \<in> set (map of_nat [1..<n] :: uint8_t list)"
  then obtain k where k: "1 \<le> k" "k < n" "(of_nat k :: uint8_t) = 0" by auto
  with n of_nat_neq_0[of k, where 'a=8] show False by simp
qed

lemma frame_254: "spec_frame_writes [] (map of_nat [1..<255]) = [255 # map of_nat [1..<255] @ [0]]"
  using spec_frame_writes_nonzero[of "map of_nat [1..<255]" "[]"] u8_nonzero_upt[of 255]
  by simp

lemma frame_255: "spec_frame_writes [] (map of_nat [0..<255]) = [[1], 255 # map of_nat [1..<255] @ [0]]"
proof -
  have "[0..<255] = 0 # [1..<255]" by (simp add: upt_conv_Cons)
  then show ?thesis using frame_254 by simp
qed

lemma test_write_packet_frame:
  assumes "tx_block s []" "concat (spec_frame_writes [] P) = F" "length F = m"
  shows "fst (write_packet TestFileHandle (s\<lparr>io := write_set_expected (io s) e n\<rparr>) P) \<and>
         write_valid (io (snd (write_packet TestFileHandle (s\<lparr>io := write_set_expected (io s) e n\<rparr>) P)))
           = (n = m \<and> take n e = F)"
  using test_write_packet[OF assms(1), of e n P] assms(2,3) by simp

subsection \<open>Wire format of the test vectors\<close>

text \<open>
  Claim C2: the bytes written for the seven payloads of the claim, checked the way the
  self test checks them. The test handle is told the expected bytes \<open>e\<close> and their
  number \<open>n\<close> (\<^verbatim>\<open>write_set_expected\<close>), the payload is written, and \<^verbatim>\<open>write_valid()\<close> is
  asked. For each payload \<open>write\<close> returns true, and the handle reports valid if and
  only if the expected bytes are exactly the frame of the claim:
  the empty payload gives 01 00; 00 gives 01 01 00; 00 00 gives 01 01 01 00;
  11 22 00 33 gives 03 11 22 02 33 00; 11 22 33 44 gives 05 11 22 33 44 00;
  the 254 bytes 1, ..., 254 give FF, 1, ..., 254, 00; and the 255 bytes 0, ..., 254 give
  01, FF, 1, ..., 254, 00. The stream is any stream between two packets.
\<close>

theorem write_packet_wire_format:
  assumes "tx_block s []"
  shows "(fst (write_packet TestFileHandle (s\<lparr>io := write_set_expected (io s) e n\<rparr>) []) \<and>
          write_valid (io (snd (write_packet TestFileHandle (s\<lparr>io := write_set_expected (io s) e n\<rparr>) [])))
            = (n = 2 \<and> take n e = [0x01, 0x00])) \<and>
         (fst (write_packet TestFileHandle (s\<lparr>io := write_set_expected (io s) e n\<rparr>) [0x00]) \<and>
          write_valid (io (snd (write_packet TestFileHandle (s\<lparr>io := write_set_expected (io s) e n\<rparr>) [0x00])))
            = (n = 3 \<and> take n e = [0x01, 0x01, 0x00])) \<and>
         (fst (write_packet TestFileHandle (s\<lparr>io := write_set_expected (io s) e n\<rparr>) [0x00, 0x00]) \<and>
          write_valid (io (snd (write_packet TestFileHandle (s\<lparr>io := write_set_expected (io s) e n\<rparr>) [0x00, 0x00])))
            = (n = 4 \<and> take n e = [0x01, 0x01, 0x01, 0x00])) \<and>
         (fst (write_packet TestFileHandle (s\<lparr>io := write_set_expected (io s) e n\<rparr>) [0x11, 0x22, 0x00, 0x33]) \<and>
          write_valid (io (snd (write_packet TestFileHandle (s\<lparr>io := write_set_expected (io s) e n\<rparr>)
                                  [0x11, 0x22, 0x00, 0x33])))
            = (n = 6 \<and> take n e = [0x03, 0x11, 0x22, 0x02, 0x33, 0x00])) \<and>
         (fst (write_packet TestFileHandle (s\<lparr>io := write_set_expected (io s) e n\<rparr>) [0x11, 0x22, 0x33, 0x44]) \<and>
          write_valid (io (snd (write_packet TestFileHandle (s\<lparr>io := write_set_expected (io s) e n\<rparr>)
                                  [0x11, 0x22, 0x33, 0x44])))
            = (n = 6 \<and> take n e = [0x05, 0x11, 0x22, 0x33, 0x44, 0x00])) \<and>
         (fst (write_packet TestFileHandle (s\<lparr>io := write_set_expected (io s) e n\<rparr>) (map of_nat [1..<255])) \<and>
          write_valid (io (snd (write_packet TestFileHandle (s\<lparr>io := write_set_expected (io s) e n\<rparr>)
                                  (map of_nat [1..<255]))))
            = (n = 256 \<and> take n e = 0xFF # map of_nat [1..<255] @ [0x00])) \<and>
         (fst (write_packet TestFileHandle (s\<lparr>io := write_set_expected (io s) e n\<rparr>) (map of_nat [0..<255])) \<and>
          write_valid (io (snd (write_packet TestFileHandle (s\<lparr>io := write_set_expected (io s) e n\<rparr>)
                                  (map of_nat [0..<255]))))
            = (n = 257 \<and> take n e = 0x01 # 0xFF # map of_nat [1..<255] @ [0x00]))"
proof -
  have f0: "concat (spec_frame_writes [] []) = [0x01, 0x00]"
    and f1: "concat (spec_frame_writes [] [0x00]) = [0x01, 0x01, 0x00]"
    and f2: "concat (spec_frame_writes [] [0x00, 0x00]) = [0x01, 0x01, 0x01, 0x00]"
    and f3: "concat (spec_frame_writes [] [0x11, 0x22, 0x00, 0x33]) = [0x03, 0x11, 0x22, 0x02, 0x33, 0x00]"
    and f4: "concat (spec_frame_writes [] [0x11, 0x22, 0x33, 0x44]) = [0x05, 0x11, 0x22, 0x33, 0x44, 0x00]"
    by simp_all
  have f5: "concat (spec_frame_writes [] (map of_nat [1..<255])) = 0xFF # map of_nat [1..<255] @ [0x00]"
    unfolding frame_254 by simp
  have f6: "concat (spec_frame_writes [] (map of_nat [0..<255])) = 0x01 # 0xFF # map of_nat [1..<255] @ [0x00]"
    unfolding frame_255 by simp
  note w = test_write_packet_frame[OF assms, of _ _ _ e n]
  have "length [0x01, 0x00 :: uint8_t] = 2" by simp
  note w0 = w[OF f0 this]
  have "length [0x01, 0x01, 0x00 :: uint8_t] = 3" by simp
  note w1 = w[OF f1 this]
  have "length [0x01, 0x01, 0x01, 0x00 :: uint8_t] = 4" by simp
  note w2 = w[OF f2 this]
  have "length [0x03, 0x11, 0x22, 0x02, 0x33, 0x00 :: uint8_t] = 6" by simp
  note w3 = w[OF f3 this]
  have "length [0x05, 0x11, 0x22, 0x33, 0x44, 0x00 :: uint8_t] = 6" by simp
  note w4 = w[OF f4 this]
  have "length (0xFF # map of_nat [1..<255] @ [0x00 :: uint8_t]) = 256" by simp
  note w5 = w[OF f5 this]
  have "length (0x01 # 0xFF # map of_nat [1..<255] @ [0x00 :: uint8_t]) = 257" by simp
  note w6 = w[OF f6 this]
  show ?thesis
    using w0 w1 w2 w3 w4 w5 w6 by blast
qed

theorem write_packet_wire_format_witness:
  "write_valid (io (snd (write_packet TestFileHandle
      ((test_stream [])\<lparr>io := write_set_expected (io (test_stream []))
                                 [0x03, 0x11, 0x22, 0x02, 0x33, 0x00] 6\<rparr>)
      [0x11, 0x22, 0x00, 0x33]))) \<and>
   \<not> write_valid (io (snd (write_packet TestFileHandle
      ((test_stream [])\<lparr>io := write_set_expected (io (test_stream []))
                                 [0x03, 0x11, 0x22, 0x00, 0x33, 0x00] 6\<rparr>)
      [0x11, 0x22, 0x00, 0x33])))"
  using write_packet_wire_format[OF tx_block_test_stream[of "[]"],
      of "[0x03, 0x11, 0x22, 0x02, 0x33, 0x00]" 6]
    write_packet_wire_format[OF tx_block_test_stream[of "[]"],
      of "[0x03, 0x11, 0x22, 0x00, 0x33, 0x00]" 6]
  by simp

section \<open>The flag that write returns\<close>

lemma count_ok_pair [simp]: "count_ok (b, n) = (n = int (length b))"
  by (simp add: count_ok_def)

lemma logged_write:
  "fh_write (logged fh) (i, log) b =
     (fst (fh_write fh i b), (snd (fh_write fh i b), log @ [(b, fst (fh_write fh i b))]))"
  by (simp add: logged_def split: prod.splits)

lemma write_all_logged:
  "\<exists>ents. write_all (logged fh) ok (i, log) W =
            (fst (write_all fh ok i W), (snd (write_all fh ok i W), log @ ents)) \<and>
          map fst ents = W \<and>
          fst (write_all fh ok i W) = (ok \<and> list_all count_ok ents)"
proof (induction W arbitrary: ok i log)
  case Nil
  then show ?case by simp
next
  case (Cons b bs)
  let ?n = "fst (fh_write fh i b)" and ?i1 = "snd (fh_write fh i b)"
  let ?ok1 = "if ?n \<noteq> int (length b) then False else ok"
  from Cons.IH[of ?ok1 ?i1 "log @ [(b, ?n)]"] obtain ents where
    e: "write_all (logged fh) ?ok1 (?i1, log @ [(b, ?n)]) bs =
          (fst (write_all fh ?ok1 ?i1 bs), (snd (write_all fh ?ok1 ?i1 bs), (log @ [(b, ?n)]) @ ents))"
    and m: "map fst ents = bs"
    and f: "fst (write_all fh ?ok1 ?i1 bs) = (?ok1 \<and> list_all count_ok ents)"
    by blast
  have w: "write_all fh ok i (b # bs) = write_all fh ?ok1 ?i1 bs"
    by (simp split: prod.splits)
  have wl: "write_all (logged fh) ok (i, log) (b # bs) =
      write_all (logged fh) ?ok1 (?i1, log @ [(b, ?n)]) bs"
    by (simp add: logged_write)
  show ?case
    unfolding w wl e using m f
    by (intro exI[of _ "(b, ?n) # ents"]) auto
qed

lemma tx_block_with_io: "tx_block (with_io s i) c = tx_block s c"
  by (simp add: tx_block_def with_io_def)

text \<open>
  Claim C7: for any transport \<open>fh\<close> and any stream between two packets, \<open>write\<close> returns
  true exactly when every transport write of the frame returned the count it was asked
  for. The writes are observed by running the same call over the recording transport
  \<open>logged fh\<close>: its log holds, in order, the buffers of the frame (the writes of the
  specification) with the counts \<open>fh\<close> returned, and recording leaves the transport
  \<open>fh\<close> as the plain call leaves it. Whatever the counts were, the encoder is back in
  its initial state afterwards: \<^verbatim>\<open>_tx_pos\<close> is 1 and \<^verbatim>\<open>_tx_buf[0]\<close> is 0.
\<close>

theorem write_packet_result:
  assumes "tx_block s []"
  shows "fst (write_packet fh s P) =
           list_all count_ok (snd (io (snd (write_packet (logged fh) (with_io s (io s, [])) P)))) \<and>
         map fst (snd (io (snd (write_packet (logged fh) (with_io s (io s, [])) P)))) = spec_frame_writes [] P \<and>
         fst (io (snd (write_packet (logged fh) (with_io s (io s, [])) P))) = io (snd (write_packet fh s P)) \<and>
         tx_pos (snd (write_packet fh s P)) = 1 \<and>
         tx_buf (snd (write_packet fh s P)) ! 0 = 0 \<and>
         length (tx_buf (snd (write_packet fh s P))) = 257"
proof -
  let ?sl = "with_io s (io s, [] :: (uint8_t list \<times> int) list)"
  let ?W = "spec_frame_writes [] P"
  have bl: "tx_block ?sl []" using assms by (simp add: tx_block_with_io)
  have io: "io ?sl = (io s, [])" by (simp add: with_io_def)
  from write_all_logged[of fh True "io s" "[]" ?W] obtain ents where
    e: "write_all (logged fh) True (io s, []) ?W =
            (fst (write_all fh True (io s) ?W), (snd (write_all fh True (io s) ?W), ents))"
    and m: "map fst ents = ?W"
    and f: "fst (write_all fh True (io s) ?W) = list_all count_ok ents"
    by auto
  have 1: "io (snd (write_packet (logged fh) ?sl P)) = (snd (write_all fh True (io s) ?W), ents)"
    using write_packet_refines(2)[OF bl, of "logged fh" P] e io by simp
  have 2: "tx_block (snd (write_packet fh s P)) []"
    by (rule write_packet_refines(3)[OF assms])
  then have 3: "tx_pos (snd (write_packet fh s P)) = 1"
    by (metis tx_block_def list.size(3) unat_1 One_nat_def word_unat_eq_iff)
  show ?thesis
    using 1 2 3 m f write_packet_refines(1,2,4)[OF assms, of fh P]
    by (simp add: tx_block_def)
qed

theorem write_packet_result_witness:
  "\<not> fst (write_packet LoopFileHandle
       (PacketStream_new (replicate 257 0)
          \<lparr>loop_buf = replicate 2048 0, loop_head = 1, loop_tail = 0, loop_size = 2048\<rparr>)
       [0x11]) \<and>
   tx_pos (snd (write_packet LoopFileHandle
       (PacketStream_new (replicate 257 0)
          \<lparr>loop_buf = replicate 2048 0, loop_head = 1, loop_tail = 0, loop_size = 2048\<rparr>)
       [0x11])) = 1 \<and>
   tx_buf (snd (write_packet LoopFileHandle
       (PacketStream_new (replicate 257 0)
          \<lparr>loop_buf = replicate 2048 0, loop_head = 1, loop_tail = 0, loop_size = 2048\<rparr>)
       [0x11])) ! 0 = 0"
proof -
  let ?l = "\<lparr>loop_buf = replicate 2048 (0 :: uint8_t), loop_head = 1, loop_tail = 0, loop_size = 2048\<rparr>"
  let ?s = "PacketStream_new (replicate 257 0) ?l"
  have b: "tx_block ?s []"
    by (simp add: tx_block_new)
  have n: "\<not> fst (write_all LoopFileHandle True (io ?s) (spec_frame_writes [] [0x11]))"
    by (simp add: PacketStream_new_def LoopFileHandle_def loop_write_def loop_free_def loop_used_def)
  have "\<not> fst (write_packet LoopFileHandle ?s [0x11])"
    unfolding write_packet_refines(1)[OF b] by (rule n)
  with write_packet_result[OF b, of LoopFileHandle "[0x11]"] show ?thesis
    by simp
qed

section \<open>Round trip over the loop file handle\<close>

lemma loop_put_props:
  assumes "loop_ok l" "Suc (loop_used l) < loop_size l"
  shows "loop_ok (loop_put l b)"
    and "loop_used (loop_put l b) = Suc (loop_used l)"
    and "loop_contents (loop_put l b) = loop_contents l @ [b]"
    and "loop_head (loop_put l b) = loop_head l"
    and "loop_size (loop_put l b) = loop_size l"
proof -
  show ok: "loop_ok (loop_put l b)"
    using assms by (auto simp: loop_ok_def loop_put_def Let_def)
  show hd: "loop_head (loop_put l b) = loop_head l"
    by (simp add: loop_put_def Let_def)
  show sz: "loop_size (loop_put l b) = loop_size l"
    by (simp add: loop_put_def Let_def)
  show us: "loop_used (loop_put l b) = Suc (loop_used l)"
    using assms by (auto simp: loop_ok_def loop_put_def loop_used_def Let_def split: if_splits)
  have idx: "loop_index (loop_put l b) k = loop_index l k" for k
    by (simp add: loop_index_def hd sz)
  have buf: "loop_buf (loop_put l b) = (loop_buf l)[loop_tail l := b]"
    by (simp add: loop_put_def Let_def)
  have old: "loop_index l k \<noteq> loop_tail l" if "k < loop_used l" for k
    using that assms by (auto simp: loop_ok_def loop_used_def loop_index_def split: if_splits)
  have new: "loop_index l (loop_used l) = loop_tail l"
    using assms by (auto simp: loop_ok_def loop_used_def loop_index_def split: if_splits)
  have tl: "loop_tail l < length (loop_buf l)"
    using assms by (simp add: loop_ok_def)
  have "map (\<lambda>k. loop_buf (loop_put l b) ! loop_index (loop_put l b) k) [0..<loop_used l]
        = map (\<lambda>k. loop_buf l ! loop_index l k) [0..<loop_used l]"
  proof (rule map_cong[OF refl])
    fix k assume "k \<in> set [0..<loop_used l]"
    then have "k < loop_used l" by simp
    from old[OF this] show "loop_buf (loop_put l b) ! loop_index (loop_put l b) k = loop_buf l ! loop_index l k"
      by (simp add: idx buf)
  qed
  then show "loop_contents (loop_put l b) = loop_contents l @ [b]"
    by (simp add: loop_contents_def us idx buf new tl)
qed

lemma loop_fold_props:
  assumes "loop_ok l" "loop_used l + length bs < loop_size l"
  shows "loop_ok (foldl loop_put l bs) \<and>
         loop_used (foldl loop_put l bs) = loop_used l + length bs \<and>
         loop_contents (foldl loop_put l bs) = loop_contents l @ bs \<and>
         loop_head (foldl loop_put l bs) = loop_head l \<and>
         loop_size (foldl loop_put l bs) = loop_size l"
  using assms
proof (induction bs arbitrary: l)
  case Nil
  then show ?case by simp
next
  case (Cons b bs)
  have s: "Suc (loop_used l) < loop_size l" using Cons.prems(2) by simp
  note p = loop_put_props[OF Cons.prems(1) s, of b]
  have "loop_used (loop_put l b) + length bs < loop_size (loop_put l b)"
    using Cons.prems(2) p by simp
  from Cons.IH[OF p(1) this] p show ?case by simp
qed

lemma loop_write_fits:
  assumes "loop_ok l" "loop_used l + length bs < loop_size l"
  shows "fh_write LoopFileHandle l bs = (int (length bs), foldl loop_put l bs)"
  using assms by (simp add: LoopFileHandle_def loop_write_def loop_free_def)

lemma loop_write_all:
  assumes "loop_ok l" "loop_used l + length (concat W) < loop_size l"
  shows "fst (write_all LoopFileHandle ok l W) = ok \<and>
         loop_ok (snd (write_all LoopFileHandle ok l W)) \<and>
         loop_used (snd (write_all LoopFileHandle ok l W)) = loop_used l + length (concat W) \<and>
         loop_contents (snd (write_all LoopFileHandle ok l W)) = loop_contents l @ concat W \<and>
         loop_head (snd (write_all LoopFileHandle ok l W)) = loop_head l \<and>
         loop_size (snd (write_all LoopFileHandle ok l W)) = loop_size l"
  using assms
proof (induction W arbitrary: l ok)
  case Nil
  then show ?case by simp
next
  case (Cons b bs)
  have fit: "loop_used l + length b < loop_size l" using Cons.prems(2) by simp
  note w = loop_write_fits[OF Cons.prems(1) fit]
  note f = loop_fold_props[OF Cons.prems(1) fit]
  have "loop_used (foldl loop_put l b) + length (concat bs) < loop_size (foldl loop_put l b)"
    using Cons.prems(2) f by simp
  from Cons.IH[OF _ this, of ok] f w show ?case
    by (simp add: add.assoc)
qed

lemma loop_read_next:
  assumes "loop_ok l" "loop_contents l = b # rest"
  shows "\<exists>l'. fh_read LoopFileHandle l = (1, b, l') \<and> loop_ok l' \<and> loop_contents l' = rest \<and>
              loop_tail l' = loop_tail l \<and> loop_buf l' = loop_buf l \<and> loop_size l' = loop_size l \<and>
              loop_used l' = loop_used l - 1"
proof -
  from assms(2) have u: "0 < loop_used l"
    by (cases "loop_used l") (auto simp: loop_contents_def)
  define l' where "l' = l\<lparr>loop_head := (if loop_size l \<le> loop_head l + 1 then 0 else loop_head l + 1)\<rparr>"
  have f: "loop_tail l' = loop_tail l" "loop_buf l' = loop_buf l" "loop_size l' = loop_size l"
    and h: "loop_head l' = (if loop_size l \<le> loop_head l + 1 then 0 else loop_head l + 1)"
    by (simp_all add: l'_def)
  have rd: "fh_read LoopFileHandle l = (1, loop_buf l ! loop_head l, l')"
    using u by (auto simp: LoopFileHandle_def loop_read_def Let_def l'_def)
  have ok: "loop_ok l'"
    using assms(1) by (auto simp: loop_ok_def f h)
  have us: "loop_used l' = loop_used l - 1"
    using assms(1) u by (auto simp: loop_ok_def loop_used_def f h split: if_splits)
  have upt: "[0..<loop_used l] = 0 # map Suc [0..<loop_used l - 1]"
    using u by (metis Suc_pred' map_Suc_upt upt_conv_Cons)
  have i0: "loop_index l 0 = loop_head l"
    using assms(1) by (simp add: loop_index_def loop_ok_def)
  have idx: "loop_index l' k = loop_index l (Suc k)" if "k < loop_used l - 1" for k
    using that assms(1) by (auto simp: loop_index_def loop_ok_def loop_used_def f h split: if_splits)
  have c: "loop_contents l = loop_buf l ! loop_head l # map (\<lambda>k. loop_buf l ! loop_index l (Suc k)) [0..<loop_used l - 1]"
    unfolding loop_contents_def by (subst upt) (simp add: i0 comp_def)
  have "map (\<lambda>k. loop_buf l' ! loop_index l' k) [0..<loop_used l - 1]
        = map (\<lambda>k. loop_buf l ! loop_index l (Suc k)) [0..<loop_used l - 1]"
  proof (rule map_cong[OF refl])
    fix k assume "k \<in> set [0..<loop_used l - 1]"
    then have "k < loop_used l - 1" by simp
    from idx[OF this] show "loop_buf l' ! loop_index l' k = loop_buf l ! loop_index l (Suc k)"
      by (simp add: f)
  qed
  then have "loop_contents l' = map (\<lambda>k. loop_buf l ! loop_index l (Suc k)) [0..<loop_used l - 1]"
    by (simp add: loop_contents_def us)
  with c assms(2) have "loop_buf l ! loop_head l = b" "loop_contents l' = rest"
    by simp_all
  with rd ok us f show ?thesis
    by (intro exI[of _ l']) simp
qed

lemma loop_delivers:
  assumes "loop_ok l" "loop_contents l = bs @ rest"
  shows "\<exists>l'. delivers LoopFileHandle l bs l' \<and> loop_ok l' \<and> loop_contents l' = rest \<and>
              loop_tail l' = loop_tail l \<and> loop_buf l' = loop_buf l \<and> loop_size l' = loop_size l \<and>
              loop_used l' = loop_used l - length bs"
  using assms
proof (induction bs arbitrary: l)
  case Nil
  then show ?case by simp
next
  case (Cons b bs)
  from loop_read_next[OF Cons.prems(1), of b "bs @ rest"] Cons.prems(2)
  obtain l1 where r: "fh_read LoopFileHandle l = (1, b, l1)" and ok: "loop_ok l1"
    and c: "loop_contents l1 = bs @ rest" and e: "loop_tail l1 = loop_tail l" "loop_buf l1 = loop_buf l"
      "loop_size l1 = loop_size l" "loop_used l1 = loop_used l - 1"
    by auto
  from Cons.IH[OF ok c] obtain l' where "delivers LoopFileHandle l1 bs l'" "loop_ok l'" "loop_contents l' = rest"
      "loop_tail l' = loop_tail l1" "loop_buf l' = loop_buf l1" "loop_size l' = loop_size l1"
      "loop_used l' = loop_used l1 - length bs"
    by auto
  with r e show ?case
    by (intro exI[of _ l']) (simp add: delivers_Cons)
qed

lemma loop_empty: "loop_ok l \<Longrightarrow> (loop_used l = 0) = (loop_head l = loop_tail l)"
  by (auto simp: loop_ok_def loop_used_def)

lemma loop_contents_empty: "loop_head l = loop_tail l \<Longrightarrow> loop_contents l = []"
  by (simp add: loop_contents_def loop_used_def)

lemma spec_frame_length:
  assumes "length c \<le> 254"
  shows "length (concat (spec_frame_writes c P)) \<le> length c + length P + (length c + length P) div 254 + 2"
  using assms
proof (induction P arbitrary: c)
  case Nil
  then show ?case by simp
next
  case (Cons d ds)
  have m: "a div 254 \<le> b div 254" if "a \<le> b" for a b :: nat
    using that by (rule div_le_mono)
  show ?case
  proof (cases "254 \<le> length c")
    case True
    with Cons.prems have len: "length c = 254" by simp
    have e: "(254 + Suc n) div 254 = Suc (Suc n div 254)" for n :: nat
      by simp
    show ?thesis
    proof (cases "d = 0")
      case True
      have "length (concat (spec_frame_writes [] ds)) \<le> length ds + length ds div 254 + 2"
        using Cons.IH[of "[]"] by simp
      moreover have "length ds div 254 \<le> Suc (length ds) div 254"
        by (rule m) simp
      ultimately show ?thesis using True len e[of "length ds"] by simp
    next
      case False
      have "length (concat (spec_frame_writes [d] ds)) \<le> 1 + length ds + (1 + length ds) div 254 + 2"
        using Cons.IH[of "[d]"] by simp
      then show ?thesis using False len e[of "length ds"] by simp
    qed
  next
    case nf: False
    show ?thesis
    proof (cases "d = 0")
      case True
      have "length (concat (spec_frame_writes [] ds)) \<le> length ds + length ds div 254 + 2"
        using Cons.IH[of "[]"] by simp
      moreover have "length ds div 254 \<le> (length c + Suc (length ds)) div 254"
        by (rule m) simp
      ultimately show ?thesis using True nf by simp
    next
      case False
      have "length (concat (spec_frame_writes (c @ [d]) ds))
          \<le> length (c @ [d]) + length ds + (length (c @ [d]) + length ds) div 254 + 2"
        using nf by (intro Cons.IH) simp
      then show ?thesis using False nf by simp
    qed
  qed
qed

lemma loop_ok_new: "length mem = 2048 \<Longrightarrow> loop_ok (PacketStreamLoopFileHandle_new mem)"
  by (simp add: loop_ok_def PacketStreamLoopFileHandle_new_def)

text \<open>
  Claim C1: a packet written to a stream and read back from the same stream. The
  transport is the loop file handle of the self test, empty before the write; the
  stream is between two packets, its decoder in the initial state. For every payload
  \<open>P\<close> whose frame fits the ring (\<open>length P + length P div 254 + 2\<close> bytes at most, below
  the ring size: with the 2048 bytes of the source every payload of up to 2037 bytes),
  \<open>write\<close> returns true and \<open>read\<close> returns true, the length of \<open>P\<close>, and \<open>P\<close> in the
  caller buffer (its first \<open>cap\<close> bytes when the capacity \<open>cap\<close> is smaller). The ring
  size is the \<^verbatim>\<open>size_t\<close> field \<^verbatim>\<open>_size\<close>, a number below \<open>2 ^ 32\<close>, so the counter of
  \<open>read\<close> does not wrap on a payload that fits the ring. The handle
  is empty again afterwards and the stream is as the hypotheses ask, so the statement
  applies to the next packet as well. The frame of \<open>P\<close> has one block for every run of
  254 bytes without a zero, so payloads of several hundred bytes go through several
  overhead blocks.
\<close>

theorem write_read_round_trip:
  assumes "write_packet LoopFileHandle s P = (ok, s1)"
    and "tx_block s []" "rx_next_zero s = 1" "rx_next_pad s"
    and "loop_ok (io s)" "loop_head (io s) = loop_tail (io s)"
    and "length P + length P div 254 + 2 < loop_size (io s)"
    and "cap \<le> length data"
    and "loop_size (io s) < 2 ^ 32"
  shows "ok \<and>
         read LoopFileHandle s1 data cap actual =
           Some (True, take cap P @ drop (min cap (length P)) data, length P,
                 s1\<lparr>io := (io s1)\<lparr>loop_head := loop_tail (io s1)\<rparr>\<rparr>) \<and>
         tx_block s1 [] \<and> rx_next_zero s1 = 1 \<and> rx_next_pad s1 \<and>
         loop_ok (io s1) \<and> loop_size (io s1) = loop_size (io s)"
proof -
  let ?W = "spec_frame_writes [] P"
  note r = write_packet_refines[OF assms(2), of LoopFileHandle P]
  have ok: "ok = fst (write_all LoopFileHandle True (io s) ?W)"
    and io1: "io s1 = snd (write_all LoopFileHandle True (io s) ?W)"
    and tx: "tx_block s1 []" and rx: "rx_next_zero s1 = 1" "rx_next_pad s1"
    using r assms(1,3,4) by simp_all
  have u0: "loop_used (io s) = 0"
    using assms(5,6) by (simp add: loop_empty)
  have "length (concat ?W) \<le> length P + length P div 254 + 2"
    using spec_frame_length[of "[]" P] by simp
  then have fit: "loop_used (io s) + length (concat ?W) < loop_size (io s)"
    using u0 assms(7) by simp
  from loop_write_all[OF assms(5) fit, of True]
  have t: "ok" and lok: "loop_ok (io s1)" and c: "loop_contents (io s1) = concat ?W @ []"
    and sz: "loop_size (io s1) = loop_size (io s)"
    and us: "loop_used (io s1) = length (concat ?W)"
    using ok io1 u0 loop_contents_empty[OF assms(6)] by simp_all
  from loop_delivers[OF lok c] obtain l' where
    d: "delivers LoopFileHandle (io s1) (concat ?W) l'" and ok': "loop_ok l'"
    and e: "loop_tail l' = loop_tail (io s1)" "loop_buf l' = loop_buf (io s1)" "loop_size l' = loop_size (io s1)"
    and u': "loop_used l' = loop_used (io s1) - length (concat ?W)"
    by auto
  have "loop_head l' = loop_tail l'"
    using ok' u' us loop_empty[of l'] by simp
  with e have l': "l' = (io s1)\<lparr>loop_head := loop_tail (io s1)\<rparr>"
    by (intro PacketStreamLoopFileHandle.equality) simp_all
  have "length P < 2 ^ 32"
    using assms(7,9) by simp
  from read_frame[OF d rx assms(8) this, of actual] t tx rx lok sz l' show ?thesis
    by simp
qed

theorem write_read_round_trip_witness:
  "fst (write_packet LoopFileHandle
          (PacketStream_new (replicate 257 0) (PacketStreamLoopFileHandle_new (replicate 2048 0)))
          (map of_nat [0..<700])) \<and>
   map_option (\<lambda>r. (fst r, fst (snd r), fst (snd (snd r))))
     (read LoopFileHandle
        (snd (write_packet LoopFileHandle
                (PacketStream_new (replicate 257 0) (PacketStreamLoopFileHandle_new (replicate 2048 0)))
                (map of_nat [0..<700])))
        (replicate 1024 0) 1024 0)
     = Some (True, map of_nat [0..<700] @ replicate 324 0, 700)"
proof -
  let ?s = "PacketStream_new (replicate 257 0) (PacketStreamLoopFileHandle_new (replicate 2048 0))
              :: PacketStreamLoopFileHandle PacketStream"
  let ?P = "map of_nat [0..<700] :: uint8_t list"
  have w: "write_packet LoopFileHandle ?s ?P =
             (fst (write_packet LoopFileHandle ?s ?P), snd (write_packet LoopFileHandle ?s ?P))"
    by simp
  have b: "tx_block ?s []"
    by (simp add: tx_block_new)
  have rx: "rx_next_zero ?s = 1" "rx_next_pad ?s"
    by (simp_all add: PacketStream_new_def)
  have l: "loop_ok (io ?s)" "loop_head (io ?s) = loop_tail (io ?s)"
    by (simp_all add: PacketStream_new_def loop_ok_new) (simp add: PacketStreamLoopFileHandle_new_def)
  have n: "length ?P + length ?P div 254 + 2 < loop_size (io ?s)"
    by (simp add: PacketStream_new_def PacketStreamLoopFileHandle_new_def)
  have c: "(1024 :: nat) \<le> length (replicate 1024 (0 :: uint8_t))"
    by simp
  have m: "loop_size (io ?s) < 2 ^ 32"
    by (simp add: PacketStream_new_def PacketStreamLoopFileHandle_new_def)
  from write_read_round_trip[OF w b rx l n c m, of 0] show ?thesis
    by simp
qed


end
